theory Spec2Isabelle
  imports Main "HOL-Library.Word" "HOL-Library.Sublist"
begin

unbundle bit_operations_syntax

section \<open>The bridge: data\<close>

text \<open>
  A shallow embedding of \<^verbatim>\<open>src/bridge.js\<close>. The script is a single-threaded Node.js
  program: module-level variables, event handlers that run to completion, promise
  reactions that run before the next event, timers and HTTP calls that complete later.
  The module-level variables and the pending work of the runtime are one record; each
  handler is a function on that record; one event of the event loop is one application
  of \<open>step\<close>. Calls on the outside world (the serial port, the TCP socket, the HTTP
  endpoint) are recorded in observation lists, in the order they are made. Console
  output is left out.

  What the outside world does is an input: the events and their order, the outcome of
  every HTTP call, the values \<^verbatim>\<open>serial.write\<close> returns. The model allows more orders
  of events than Node.js does (a \<^verbatim>\<open>data\<close> event before the server listens, timers due at
  the same time in any order), so what holds of every run of the model holds of every run
  of the script. The counters are natural numbers: JavaScript's numbers are exact up to
  \<open>2^53\<close>. The process is taken to go on running: the exits of the script (the usage
  message, a serial port that does not open, the server's \<^verbatim>\<open>error\<close> event) and a
  rejection that nothing handles (lines 423 and 439) end a run of the script where the
  model goes on.
\<close>

type_synonym byte = "8 word"

type_synonym socket = nat
  \<comment> \<open>the identity of a \<^verbatim>\<open>net.Socket\<close> object\<close>

text \<open>The \<^verbatim>\<open>stats\<close> object (lines 200--214). Times are milliseconds, as \<^verbatim>\<open>Date.now()\<close>.\<close>

record stats =
  startedAt :: nat
  tcpConnects :: nat
  tcpBytes :: nat
  tcpFramesOk :: nat
  tcpFramesBad :: nat
  serialBytes :: nat
  serialFrames :: nat
  serialBackpressure :: nat
  lastTcpAt :: nat
  lastSerialAt :: nat
  lastBioAt :: nat
  lastStartAt :: nat
  lastStopAt :: nat

text \<open>
  The HTTP calls the script makes. A \<^verbatim>\<open>POST\<close> carries one of three bodies: the JSON object
  \<^verbatim>\<open>{command: cmd}\<close>, the \<^verbatim>\<open>/tcp\<close> configuration object (with or without its
  \<^verbatim>\<open>output\<close> field), or the command as \<^verbatim>\<open>text/plain\<close>.
\<close>

datatype payload = CommandJson string | TcpConfig bool | PlainText string

datatype request = Post string payload | Get string

text \<open>
  What becomes of a \<^verbatim>\<open>fetch\<close>: its promise rejects (a transport failure), or it
  resolves to a response with a status and a body; the body is \<^verbatim>\<open>""\<close> when reading it
  fails (\<^verbatim>\<open>r.text().catch(() => "")\<close>).
\<close>

datatype outcome = Rejected | Responded nat string

record http_result =
  ok :: bool
  status :: nat
  rtext :: string  \<comment> \<open>the field \<^verbatim>\<open>text\<close>\<close>

text \<open>
  An \<^verbatim>\<open>async\<close> function that only awaits HTTP calls: it has returned, it has thrown,
  or it awaits a request and goes on with the outcome.
\<close>

datatype 'a aw = Ret 'a | Thrown | Await request "outcome \<Rightarrow> 'a aw"

primrec bind :: "'a aw \<Rightarrow> ('a \<Rightarrow> 'b aw) \<Rightarrow> 'b aw" where
  "bind (Ret x) f = f x"
| "bind Thrown f = Thrown"
| "bind (Await r k) f = Await r (\<lambda>out. bind (k out) f)"

text \<open>What the awaited call was made for: the place the result goes back to.\<close>

datatype caller =
    ByQueue string nat  \<comment> \<open>line 170, the queue task of a token; the promise it settles\<close>
  | ByStartStop         \<comment> \<open>line 403, \<^verbatim>\<open>await stopStream()\<close> in \<^verbatim>\<open>startStream\<close>\<close>
  | ByInit              \<comment> \<open>line 406\<close>
  | ByChannel nat       \<comment> \<open>line 414, the index in \<^verbatim>\<open>channelCmds\<close>\<close>
  | ByLoneStop          \<comment> \<open>line 490, \<^verbatim>\<open>stopStream()\<close> of the trigger \<^verbatim>\<open>s\<close>\<close>
  | ByStreamStart       \<comment> \<open>line 423\<close>
  | ByTcp               \<comment> \<open>line 379\<close>
  | ByTcpRetry          \<comment> \<open>line 385\<close>

datatype timer =
    TriggerB     \<comment> \<open>lines 482--485\<close>
  | TriggerS     \<comment> \<open>lines 489--491\<close>
  | SettleStart  \<comment> \<open>lines 422--426\<close>

datatype signal = Pause socket | Resume socket

text \<open>The configuration read once at startup (lines 38 and 123).\<close>

record config =
  initCmd :: string
  channelCmds :: "(nat \<times> string) list"

record bridge =
  \<comment> \<open>module-level variables\<close>
  cmdQ :: nat
  cmdQueueDepth :: nat
  currentSocket :: "socket option"
  serverStarted :: bool
  tcpBuffer :: "byte list"
  pausedBySerialBackpressure :: bool
  stats :: stats
  cmdBuf :: string
  \<comment> \<open>the runtime: promises, timers, HTTP calls under way, the pending listen callback\<close>
  reactions :: "(nat \<times> string \<times> nat) list"
  settled :: "nat set"
  nextPromise :: nat
  timers :: "(nat \<times> timer) list"
  inflight :: "(nat \<times> (outcome \<Rightarrow> http_result aw) \<times> caller) list"
  nextFetch :: nat
  listenPending :: bool
  \<comment> \<open>the environment: the clock and the serial port\<close>
  now :: nat
  serialWritable :: bool
  serialOks :: "bool list"
  \<comment> \<open>observations\<close>
  emitted :: "byte list list"
  written :: "(byte list \<times> bool) list"
  signals :: "signal list"
  queued :: "string list"
  calls :: "(nat \<times> request \<times> caller) list"

text \<open>
  \<^item> \<open>cmdQ\<close> is the promise the variable \<^verbatim>\<open>cmdQ\<close> holds, by number; promise \<open>0\<close> is
    \<^verbatim>\<open>Promise.resolve()\<close>. \<open>reactions\<close> holds \<open>(p, cmd, q)\<close> for every callback of
    \<^verbatim>\<open>queueCmd\<close> that waits for promise \<open>p\<close> and whose chain
    \<^verbatim>\<open>.then(..).catch(..).finally(..)\<close> is promise \<open>q\<close>.
  \<^item> \<open>timers\<close> holds the due time and the callback of every \<^verbatim>\<open>setTimeout\<close> under way.
  \<^item> \<open>inflight\<close> holds, for every \<^verbatim>\<open>fetch\<close> under way, its number, what the awaiting
    function does with the outcome, and the caller.
  \<^item> \<open>serialOks\<close> are the values the next calls of \<^verbatim>\<open>serial.write\<close> return
    (\<open>True\<close> once the list is used up).
  \<^item> \<open>emitted\<close>: the frames handed to \<^verbatim>\<open>writeToSerial\<close>; \<open>written\<close>: the calls of
    \<^verbatim>\<open>serial.write\<close> with the value returned; \<open>signals\<close>: the calls of
    \<^verbatim>\<open>pause\<close> and \<^verbatim>\<open>resume\<close> on a socket; \<open>queued\<close>: the tokens given to
    \<^verbatim>\<open>queueCmd\<close>; \<open>calls\<close>: the calls of \<^verbatim>\<open>fetch\<close>, with the time of the call.
\<close>

section \<open>HTTP helpers (lines 125--156)\<close>

definition response :: "outcome \<Rightarrow> http_result aw" where
  "response out =
     (case out of
        Rejected \<Rightarrow> Thrown
      | Responded st body \<Rightarrow> Ret \<lparr>ok = (200 \<le> st \<and> st \<le> 299), status = st, rtext = body\<rparr>)"

definition httpJson :: "string \<Rightarrow> payload \<Rightarrow> http_result aw" where
  "httpJson url body = Await (Post url body) response"

definition httpGet :: "string \<Rightarrow> http_result aw" where
  "httpGet url = Await (Get url) response"

definition sendShieldCommand :: "string \<Rightarrow> http_result aw" where
  "sendShieldCommand cmd =
     bind (httpJson ''/command'' (CommandJson cmd))
       (\<lambda>r. if ok r then Ret r
            else Await (Post ''/command'' (PlainText cmd)) response)"

section \<open>The runtime: HTTP calls under way, timers, the command queue\<close>

text \<open>
  Starting an awaited function: its first request goes out, and the rest waits for the
  outcome. Every function started below is one of the HTTP helpers, which begin with a
  request; for a function that has already ended there is nothing to wait for.
\<close>

definition start :: "http_result aw \<Rightarrow> caller \<Rightarrow> bridge \<Rightarrow> bridge" where
  "start p c s =
     (case p of
        Await req k \<Rightarrow>
          s\<lparr>inflight := inflight s @ [(nextFetch s, k, c)],
            nextFetch := nextFetch s + 1,
            calls := calls s @ [(now s, req, c)]\<rparr>
      | _ \<Rightarrow> s)"

definition setTimeout :: "timer \<Rightarrow> nat \<Rightarrow> bridge \<Rightarrow> bridge" where
  "setTimeout cb ms s = s\<lparr>timers := timers s @ [(now s + ms, cb)]\<rparr>"

text \<open>
  \<^verbatim>\<open>queueCmd\<close> (lines 161--182): the callback is registered on the promise \<^verbatim>\<open>cmdQ\<close>
  holds, and \<^verbatim>\<open>cmdQ\<close> becomes the end of the new chain.
\<close>

definition queueCmd :: "string \<Rightarrow> bridge \<Rightarrow> bridge" where
  "queueCmd cmd s =
     s\<lparr>cmdQueueDepth := cmdQueueDepth s + 1,
       reactions := reactions s @ [(cmdQ s, cmd, nextPromise s)],
       cmdQ := nextPromise s,
       nextPromise := nextPromise s + 1,
       queued := queued s @ [cmd]\<rparr>"

text \<open>
  The promise reactions that are ready run before the next event: the callback of line
  167 starts \<^verbatim>\<open>sendShieldCommand(cmd)\<close>.
\<close>

definition runMicrotasks :: "bridge \<Rightarrow> bridge" where
  "runMicrotasks s =
     (let ready = filter (\<lambda>(p, cmd, q). p \<in> settled s) (reactions s);
          waiting = filter (\<lambda>(p, cmd, q). p \<notin> settled s) (reactions s)
      in fold (\<lambda>(p, cmd, q). start (sendShieldCommand cmd) (ByQueue cmd q)) ready
           (s\<lparr>reactions := waiting\<rparr>))"

section \<open>The command tokenizer (lines 217--286)\<close>

definition fromCharCode :: "byte \<Rightarrow> char" where
  "fromCharCode b = char_of (unat b)"

definition singleCharCmd :: "string list" where
  "singleCharCmd = map (\<lambda>c. [c]) ''bsv?~0123456789!@#$%^&*()<>,.''"

text \<open>
  \<^verbatim>\<open>String.prototype.trim\<close> on a string of code units below 256: the white space and
  line terminators of ECMAScript in that range are 9 to 13, 32 and 160.
\<close>

definition isTrimmed :: "char \<Rightarrow> bool" where
  "isTrimmed c = ((of_char c :: nat) \<in> {9, 10, 11, 12, 13, 32, 160})"

definition trim :: "string \<Rightarrow> string" where
  "trim str = rev (dropWhile isTrimmed (rev (dropWhile isTrimmed str)))"

definition feedByte :: "byte \<Rightarrow> bridge \<Rightarrow> bridge" where
  "feedByte b s =
     (let ch = fromCharCode b in
      if b = 0x00 then s
      else
        let s1 = s\<lparr>cmdBuf := cmdBuf s @ [ch]\<rparr> in
        if ch = CHR 0x0A \<or> ch = CHR 0x0D then
          (let cmd = trim (cmdBuf s1); s2 = s1\<lparr>cmdBuf := []\<rparr>
           in if cmd \<noteq> [] then queueCmd cmd s2 else s2)
        else if length (cmdBuf s1) = 1 \<and> cmdBuf s1 \<in> set singleCharCmd then
          (let cmd = cmdBuf s1; s2 = s1\<lparr>cmdBuf := []\<rparr> in queueCmd cmd s2)
        else if ch = CHR ''X'' \<or> ch = CHR ''Z'' then
          (let cmd = trim (cmdBuf s1); s2 = s1\<lparr>cmdBuf := []\<rparr>
           in if cmd \<noteq> [] then queueCmd cmd s2 else s2)
        else if length (cmdBuf s1) > 256 then s1\<lparr>cmdBuf := []\<rparr>
        else s1)"

definition feedCmdBytes :: "byte list \<Rightarrow> bridge \<Rightarrow> bridge" where
  "feedCmdBytes buf s = fold feedByte buf (s\<lparr>stats := (stats s)\<lparr>lastBioAt := now s\<rparr>\<rparr>)"

section \<open>The serial sink and the frame reassembler (lines 288--339)\<close>

definition writeToSerial :: "byte list \<Rightarrow> bridge \<Rightarrow> bridge" where
  "writeToSerial data s =
     (let s0 = s\<lparr>emitted := emitted s @ [data]\<rparr> in
      if \<not> serialWritable s0 then s0
      else
        let okw = (case serialOks s0 of [] \<Rightarrow> True | r # _ \<Rightarrow> r);
            s1 = s0\<lparr>serialOks := drop 1 (serialOks s0), written := written s0 @ [(data, okw)]\<rparr>;
            s2 = s1\<lparr>stats := (stats s1)
                    \<lparr>serialBytes := serialBytes (stats s1) + length data,
                     serialFrames := serialFrames (stats s1) + 1,
                     lastSerialAt := now s1\<rparr>\<rparr>
        in case currentSocket s2 of
             Some sock \<Rightarrow>
               if \<not> okw \<and> \<not> pausedBySerialBackpressure s2 then
                 s2\<lparr>signals := signals s2 @ [Pause sock],
                    pausedBySerialBackpressure := True,
                    stats := (stats s2)\<lparr>serialBackpressure := serialBackpressure (stats s2) + 1\<rparr>\<rparr>
               else s2
           | None \<Rightarrow> s2)"

definition onDrain :: "bridge \<Rightarrow> bridge" where
  "onDrain s =
     (case currentSocket s of
        Some sock \<Rightarrow>
          if pausedBySerialBackpressure s then
            s\<lparr>signals := signals s @ [Resume sock], pausedBySerialBackpressure := False\<rparr>
          else s
      | None \<Rightarrow> s)"

text \<open>\<^verbatim>\<open>Buffer.indexOf\<close>: the first index of the byte, or \<open>-1\<close>.\<close>

fun indexOf :: "byte list \<Rightarrow> byte \<Rightarrow> int" where
  "indexOf [] v = - 1"
| "indexOf (x # xs) v =
     (if x = v then 0 else (let i = indexOf xs v in if i = - 1 then - 1 else i + 1))"

text \<open>
  One pass through the body of the \<^verbatim>\<open>while\<close> loop of \<^verbatim>\<open>processTcpBuffer\<close>
  (lines 315--337), entered with at least 33 bytes: the state after it, and whether the
  function returned or the loop goes on.
\<close>

datatype ctl = Continue | Return

definition loopBody :: "bridge \<Rightarrow> ctl \<times> bridge" where
  "loopBody s =
     (let buf = tcpBuffer s in
      if buf ! 0 \<noteq> 0xA0 then
        (let idx = indexOf buf 0xA0 in
         if idx = - 1 then (Return, s\<lparr>tcpBuffer := []\<rparr>)
         else (Continue, s\<lparr>tcpBuffer := drop (nat idx) buf\<rparr>))
      else if length buf < 33 then (Return, s)
      else
        (let frame = take 33 buf; stop = frame ! 32 in
         if stop AND 0xF0 \<noteq> 0xC0 then
           (Continue,
            s\<lparr>stats := (stats s)\<lparr>tcpFramesBad := tcpFramesBad (stats s) + 1\<rparr>,
              tcpBuffer := drop 1 buf\<rparr>)
         else
           (let s1 = s\<lparr>stats := (stats s)\<lparr>tcpFramesOk := tcpFramesOk (stats s) + 1\<rparr>\<rparr>;
                s2 = writeToSerial frame s1
            in (Continue, s2\<lparr>tcpBuffer := drop 33 (tcpBuffer s2)\<rparr>))))"

function processTcpBuffer :: "bridge \<Rightarrow> bridge" where
  "processTcpBuffer s =
     (if 33 \<le> length (tcpBuffer s) then
        (case loopBody s of
           (Return, s') \<Rightarrow> s'
         | (Continue, s') \<Rightarrow> processTcpBuffer s')
      else s)"
  by pat_completeness auto

section \<open>The TCP server's handlers (lines 342--366)\<close>

definition onConnection :: "socket \<Rightarrow> bridge \<Rightarrow> bridge" where
  "onConnection sock s =
     s\<lparr>stats := (stats s)\<lparr>tcpConnects := tcpConnects (stats s) + 1\<rparr>,
       currentSocket := Some sock\<rparr>"

definition onData :: "byte list \<Rightarrow> bridge \<Rightarrow> bridge" where
  "onData chunk s =
     processTcpBuffer
       (s\<lparr>stats := (stats s)\<lparr>tcpBytes := tcpBytes (stats s) + length chunk, lastTcpAt := now s\<rparr>,
          tcpBuffer := (if length (tcpBuffer s) \<noteq> 0 then tcpBuffer s @ chunk else chunk)\<rparr>)"

definition onClose :: "socket \<Rightarrow> bridge \<Rightarrow> bridge" where
  "onClose sock s =
     s\<lparr>currentSocket := (if currentSocket s = Some sock then None else currentSocket s),
       tcpBuffer := []\<rparr>"

section \<open>The stream lifecycle (lines 374--443 and 476--494)\<close>

definition stopStream :: "caller \<Rightarrow> bridge \<Rightarrow> bridge" where
  "stopStream c s =
     start (httpGet ''/stream/stop'') c (s\<lparr>stats := (stats s)\<lparr>lastStopAt := now s\<rparr>\<rparr>)"

definition startStream :: "bridge \<Rightarrow> bridge" where
  "startStream s = stopStream ByStartStop (s\<lparr>stats := (stats s)\<lparr>lastStartAt := now s\<rparr>\<rparr>)"

definition startServer :: "bridge \<Rightarrow> bridge" where
  "startServer s =
     (if serverStarted s then s else s\<lparr>serverStarted := True, listenPending := True\<rparr>)"

text \<open>
  The loop over \<^verbatim>\<open>channelCmds\<close> (lines 412--419) from index \<open>k\<close> on, and after it the
  timer of line 422.
\<close>

definition channelLoop :: "config \<Rightarrow> nat \<Rightarrow> bridge \<Rightarrow> bridge" where
  "channelLoop cfg k s =
     (if k < length (channelCmds cfg) then
        start (sendShieldCommand (snd (channelCmds cfg ! k))) (ByChannel k) s
      else setTimeout SettleStart 1000 s)"

text \<open>
  An awaited function has ended: \<open>Some r\<close> when it returned \<open>r\<close>, \<open>None\<close> when it threw.
  The queue task ends in its \<^verbatim>\<open>finally\<close> either way (lines 173--179) and its promise is
  settled. In \<^verbatim>\<open>startStream\<close> nothing catches, so a throw ends the sequence
  (\<^verbatim>\<open>startStream().catch(() => {})\<close>, line 484). A throw in the callback of
  \<^verbatim>\<open>server.listen\<close> or in the timer callback of line 423 has no handler at all: the
  state is left as it is here, and what is proved of the lifecycle is proved of the runs
  without such a throw (\<open>caught\<close>, \<open>noRejection\<close> below).
\<close>

fun returned :: "config \<Rightarrow> caller \<Rightarrow> http_result option \<Rightarrow> bridge \<Rightarrow> bridge" where
  "returned cfg (ByQueue cmd q) r s =
     s\<lparr>cmdQueueDepth := max 0 (cmdQueueDepth s - 1), settled := insert q (settled s)\<rparr>"
| "returned cfg ByStartStop None s = s"
| "returned cfg ByStartStop (Some r) s =
     (if initCmd cfg \<noteq> [] then start (sendShieldCommand (initCmd cfg)) ByInit s
      else channelLoop cfg 0 s)"
| "returned cfg ByInit None s = s"
| "returned cfg ByInit (Some r) s = channelLoop cfg 0 s"
| "returned cfg (ByChannel k) None s = s"
| "returned cfg (ByChannel k) (Some r) s = channelLoop cfg (Suc k) s"
| "returned cfg ByLoneStop r s = s"
| "returned cfg ByStreamStart r s = s"
| "returned cfg ByTcp None s = s"
| "returned cfg ByTcp (Some r) s =
     (if \<not> ok r then start (httpJson ''/tcp'' (TcpConfig False)) ByTcpRetry s else s)"
| "returned cfg ByTcpRetry r s = s"

definition resume :: "config \<Rightarrow> http_result aw \<Rightarrow> caller \<Rightarrow> bridge \<Rightarrow> bridge" where
  "resume cfg p c s =
     (case p of
        Ret r \<Rightarrow> returned cfg c (Some r) s
      | Thrown \<Rightarrow> returned cfg c None s
      | Await req k \<Rightarrow> start p c s)"

definition fireTimer :: "timer \<Rightarrow> bridge \<Rightarrow> bridge" where
  "fireTimer cb s =
     (case cb of
        TriggerB \<Rightarrow> startStream (startServer s)
      | TriggerS \<Rightarrow> stopStream ByLoneStop s
      | SettleStart \<Rightarrow> start (httpGet ''/stream/start'') ByStreamStart s)"

definition trigger :: "byte \<Rightarrow> bridge \<Rightarrow> bridge" where
  "trigger b s =
     (let s1 = (if b = 0x62 then setTimeout TriggerB 1000 s else s)
      in if b = 0x73 then setTimeout TriggerS 1000 s1 else s1)"

definition onSerialData :: "byte list \<Rightarrow> bridge \<Rightarrow> bridge" where
  "onSerialData buf s = fold trigger buf (feedCmdBytes buf s)"

section \<open>The event loop\<close>

datatype event =
    SerialData "byte list"       \<comment> \<open>\<^verbatim>\<open>serial.on("data")\<close>\<close>
  | SerialDrain                  \<comment> \<open>\<^verbatim>\<open>serial.on("drain")\<close>\<close>
  | SerialPort bool "bool list"  \<comment> \<open>the port changes: writable or not, what the next writes return\<close>
  | TcpConnection socket
  | TcpData socket "byte list"
  | TcpClose socket
  | Listening                    \<comment> \<open>the callback of \<^verbatim>\<open>server.listen\<close>\<close>
  | Tick nat                     \<comment> \<open>time passes\<close>
  | TimerFire nat                \<comment> \<open>the timer at this place in \<open>timers\<close> fires, if it is due\<close>
  | FetchSettle nat outcome      \<comment> \<open>the \<^verbatim>\<open>fetch\<close> with this number ends\<close>

definition handle :: "config \<Rightarrow> event \<Rightarrow> bridge \<Rightarrow> bridge" where
  "handle cfg e s =
     (case e of
        SerialData buf \<Rightarrow> onSerialData buf s
      | SerialDrain \<Rightarrow> onDrain s
      | SerialPort w oks \<Rightarrow> s\<lparr>serialWritable := w, serialOks := oks\<rparr>
      | TcpConnection sock \<Rightarrow> onConnection sock s
      | TcpData sock chunk \<Rightarrow> onData chunk s
      | TcpClose sock \<Rightarrow> onClose sock s
      | Listening \<Rightarrow>
          (if listenPending s then
             start (httpJson ''/tcp'' (TcpConfig True)) ByTcp (s\<lparr>listenPending := False\<rparr>)
           else s)
      | Tick d \<Rightarrow> s\<lparr>now := now s + d\<rparr>
      | TimerFire i \<Rightarrow>
          (if i < length (timers s) \<and> fst (timers s ! i) \<le> now s then
             fireTimer (snd (timers s ! i))
               (s\<lparr>timers := take i (timers s) @ drop (Suc i) (timers s)\<rparr>)
           else s)
      | FetchSettle i out \<Rightarrow>
          (case find (\<lambda>(j, k, c). j = i) (inflight s) of
             None \<Rightarrow> s
           | Some (j, k, c) \<Rightarrow>
               resume cfg (k out) c (s\<lparr>inflight := filter (\<lambda>(j, k, c). j \<noteq> i) (inflight s)\<rparr>)))"

definition step :: "config \<Rightarrow> event \<Rightarrow> bridge \<Rightarrow> bridge" where
  "step cfg e s = runMicrotasks (handle cfg e s)"

definition run :: "config \<Rightarrow> event list \<Rightarrow> bridge \<Rightarrow> bridge" where
  "run cfg evs s = fold (step cfg) evs s"

text \<open>The state when the serial port has been opened (line 472), at time \<open>t0\<close>.\<close>

definition init :: "nat \<Rightarrow> bridge" where
  "init t0 =
     \<lparr>cmdQ = 0, cmdQueueDepth = 0, currentSocket = None, serverStarted = False,
      tcpBuffer = [], pausedBySerialBackpressure = False,
      stats = \<lparr>startedAt = t0, tcpConnects = 0, tcpBytes = 0, tcpFramesOk = 0,
               tcpFramesBad = 0, serialBytes = 0, serialFrames = 0, serialBackpressure = 0,
               lastTcpAt = 0, lastSerialAt = 0, lastBioAt = 0, lastStartAt = 0,
               lastStopAt = 0\<rparr>,
      cmdBuf = [],
      reactions = [], settled = {0}, nextPromise = 1, timers = [], inflight = [],
      nextFetch = 0, listenPending = False,
      now = t0, serialWritable = True, serialOks = [],
      emitted = [], written = [], signals = [], queued = [], calls = []\<rparr>"

section \<open>Auxiliary definitions for the proofs\<close>

text \<open>The two counter updates of the loop body.\<close>

definition countBad :: "bridge \<Rightarrow> bridge" where
  "countBad s = s\<lparr>stats := (stats s)\<lparr>tcpFramesBad := tcpFramesBad (stats s) + 1\<rparr>\<rparr>"

definition countOk :: "bridge \<Rightarrow> bridge" where
  "countOk s = s\<lparr>stats := (stats s)\<lparr>tcpFramesOk := tcpFramesOk (stats s) + 1\<rparr>\<rparr>"

text \<open>
  What a pass over a buffer hands on and what it leaves, as a function of the bytes alone;
  \<open>process_scan\<close> below shows that \<open>processTcpBuffer\<close> computes it.
\<close>

function scan :: "byte list \<Rightarrow> byte list list \<times> byte list" where
  "scan buf =
     (if 33 \<le> length buf then
        (if buf ! 0 \<noteq> 0xA0 then
           (if 0xA0 \<in> set buf then scan (dropWhile (\<lambda>x. x \<noteq> 0xA0) buf) else ([], []))
         else if buf ! 32 AND 0xF0 \<noteq> 0xC0 then scan (drop 1 buf)
         else (case scan (drop 33 buf) of (fs, r) \<Rightarrow> (take 33 buf # fs, r)))
      else ([], buf))"
  by pat_completeness auto

text \<open>The inputs of the sample scenarios.\<close>

definition start34X :: "byte list" where
  "start34X = [0x73, 0x74, 0x61, 0x72, 0x74, 0x33, 0x34, 0x58]"

definition goodFrame :: "byte list" where
  "goodFrame =
     [0xA0, 0x01, 0x02, 0x03, 0x04, 0x05, 0x06, 0x07, 0x08, 0x09, 0x0A,
      0x0B, 0x0C, 0x0D, 0x0E, 0x0F, 0x10, 0x11, 0x12, 0x13, 0x14, 0x15,
      0x16, 0x17, 0x18, 0x19, 0x1A, 0x1B, 0x1C, 0x1D, 0x1E, 0x1F, 0xC5]"

definition badBlock :: "byte list" where
  "badBlock =
     [0xA0, 0x01, 0x02, 0x03, 0x04, 0x05, 0x06, 0x07, 0x08, 0x09, 0x0A,
      0x0B, 0x0C, 0x0D, 0x0E, 0x0F, 0x10, 0x11, 0x12, 0x13, 0x14, 0x15,
      0x16, 0x17, 0x18, 0x19, 0x1A, 0x1B, 0x1C, 0x1D, 0x1E, 0x1F, 0x5C]"

text \<open>
  The part of the state the data path (TCP to serial) works on. The command path and the
  stream lifecycle leave it alone (\<open>dataView_handle\<close> below).
\<close>

definition dataView ::
  "bridge \<Rightarrow> socket option \<times> byte list \<times> bool \<times>
     (nat \<times> nat \<times> nat \<times> nat \<times> nat \<times> nat \<times> nat \<times> nat \<times> nat) \<times>
     bool \<times> bool list \<times> byte list list \<times> (byte list \<times> bool) list \<times> signal list" where
  "dataView s =
     (currentSocket s, tcpBuffer s, pausedBySerialBackpressure s,
      (tcpConnects (stats s), tcpBytes (stats s), tcpFramesOk (stats s), tcpFramesBad (stats s),
       serialBytes (stats s), serialFrames (stats s), serialBackpressure (stats s),
       lastTcpAt (stats s), lastSerialAt (stats s)),
      serialWritable s, serialOks s, emitted s, written s, signals s)"

definition dataEvent :: "event \<Rightarrow> bool" where
  "dataEvent e = (case e of SerialDrain \<Rightarrow> True | SerialPort w oks \<Rightarrow> True
     | TcpConnection sock \<Rightarrow> True | TcpData sock chunk \<Rightarrow> True | TcpClose sock \<Rightarrow> True | _ \<Rightarrow> False)"

text \<open>
  The calls of \<^verbatim>\<open>pause\<close> and \<^verbatim>\<open>resume\<close> read in order, starting from \<open>p\<close> (the source
  is paused or not): \<open>None\<close> when a pause meets a paused source or a resume one that is
  not paused, otherwise what the source is in the end.
\<close>

fun afterSignals :: "bool \<Rightarrow> signal list \<Rightarrow> bool option" where
  "afterSignals p [] = Some p"
| "afterSignals p (Pause sock # xs) = (if p then None else afterSignals True xs)"
| "afterSignals p (Resume sock # xs) = (if p then afterSignals False xs else None)"

text \<open>
  What a handler does to the flow control, from the state \<open>a\<close> before to the state \<open>b\<close>
  after: \<open>quiet\<close>, no signal and the flag as it was; \<open>silent\<close>, the same and the socket
  as it was and the serial writes only extended; \<open>pausing\<close>, one \<^verbatim>\<open>pause\<close> on the connected
  socket, with the flag clear before and set after, and a serial write that returned
  \<open>False\<close> among the new writes; \<open>resuming\<close>, one \<^verbatim>\<open>resume\<close> on the connected socket,
  with the flag set before and clear after.
\<close>

definition quiet :: "bridge \<Rightarrow> bridge \<Rightarrow> bool" where
  "quiet a b =
     (signals b = signals a \<and> pausedBySerialBackpressure b = pausedBySerialBackpressure a)"

definition silent :: "bridge \<Rightarrow> bridge \<Rightarrow> bool" where
  "silent a b =
     (currentSocket b = currentSocket a \<and> signals b = signals a \<and>
      pausedBySerialBackpressure b = pausedBySerialBackpressure a \<and>
      (\<exists>ws. written b = written a @ ws))"

definition pausing :: "bridge \<Rightarrow> bridge \<Rightarrow> bool" where
  "pausing a b =
     (currentSocket b = currentSocket a \<and>
      (\<exists>sock ws g. currentSocket a = Some sock \<and> \<not> pausedBySerialBackpressure a \<and>
         pausedBySerialBackpressure b \<and> signals b = signals a @ [Pause sock] \<and>
         written b = written a @ ws \<and> (g, False) \<in> set ws))"

definition resuming :: "bridge \<Rightarrow> bridge \<Rightarrow> bool" where
  "resuming a b =
     (\<exists>sock. currentSocket a = Some sock \<and> pausedBySerialBackpressure a \<and>
        \<not> pausedBySerialBackpressure b \<and> signals b = signals a @ [Resume sock])"

text \<open>No initialization command and no channel commands.\<close>

definition noConfig :: config where
  "noConfig = \<lparr>initCmd = [], channelCmds = []\<rparr>"

text \<open>No promise reaction is ready: the state between two events.\<close>

definition drained :: "bridge \<Rightarrow> bool" where
  "drained s = (\<forall>r \<in> set (reactions s). fst r \<notin> settled s)"

text \<open>
  The requests an awaited function makes when its HTTP calls end with the outcomes
  \<open>outs\<close>, one after the other.
\<close>

primrec requests :: "'a aw \<Rightarrow> outcome list \<Rightarrow> request list" where
  "requests (Ret x) outs = []"
| "requests Thrown outs = []"
| "requests (Await r k) outs = r # (case outs of [] \<Rightarrow> [] | out # rest \<Rightarrow> requests (k out) rest)"

text \<open>
  \<^verbatim>\<open>sendShieldCommand\<close> after its first request (\<open>sendShieldCommand_Await\<close> below).
\<close>

definition afterJson :: "string \<Rightarrow> outcome \<Rightarrow> http_result aw" where
  "afterJson cmd out =
     bind (response out)
       (\<lambda>r. if ok r then Ret r else Await (Post ''/command'' (PlainText cmd)) response)"

text \<open>The times of the HTTP calls of one kind, in the order they were made.\<close>

definition callTimes :: "(request \<Rightarrow> caller \<Rightarrow> bool) \<Rightarrow> bridge \<Rightarrow> nat list" where
  "callTimes P s = map fst (filter (\<lambda>(t, r, c). P r c) (calls s))"

definition sequenceStops :: "bridge \<Rightarrow> nat list" where
  "sequenceStops s = callTimes (\<lambda>r c. r = Get ''/stream/stop'' \<and> c = ByStartStop) s"

definition startCalls :: "bridge \<Rightarrow> nat list" where
  "startCalls s = callTimes (\<lambda>r c. r = Get ''/stream/start'') s"

definition initCalls :: "bridge \<Rightarrow> nat list" where
  "initCalls s = callTimes (\<lambda>r c. c = ByInit) s"

definition channelCalls :: "bridge \<Rightarrow> nat list" where
  "channelCalls s = callTimes (\<lambda>r c. case c of ByChannel k \<Rightarrow> True | _ \<Rightarrow> False) s"

text \<open>
  The command queue, observed. \<open>queueRunning\<close>: the queue tasks with an HTTP call under
  way. \<open>dispatched\<close>: the tokens whose dispatch has begun, read off the JSON calls made by
  queue tasks, in the order of the calls.
\<close>

type_synonym pending = "(nat \<times> (outcome \<Rightarrow> http_result aw) \<times> caller) list"
type_synonym reaction = "nat \<times> string \<times> nat"

definition isQueue :: "caller \<Rightarrow> bool" where
  "isQueue c = (case c of ByQueue cmd q \<Rightarrow> True | _ \<Rightarrow> False)"

definition running :: "pending \<Rightarrow> caller list" where
  "running F = filter isQueue (map (\<lambda>(i, k, c). c) F)"

fun dispatchOf :: "nat \<times> request \<times> caller \<Rightarrow> string list" where
  "dispatchOf (t, Post url (CommandJson x), ByQueue cmd q) = [x]"
| "dispatchOf other = []"

definition dispatchedIn :: "(nat \<times> request \<times> caller) list \<Rightarrow> string list" where
  "dispatchedIn C = concat (map dispatchOf C)"

definition queueRunning :: "bridge \<Rightarrow> caller list" where
  "queueRunning s = running (inflight s)"

definition dispatched :: "bridge \<Rightarrow> string list" where
  "dispatched s = dispatchedIn (calls s)"

text \<open>
  The invariant of the promise chain. The callbacks that wait form a chain: the first
  waits for the promise \<open>h\<close>, each next one for the promise of the one before, and
  \<^verbatim>\<open>cmdQ\<close> holds the promise of the last. When a queue task is running, \<open>h\<close> is its
  promise, not yet settled; otherwise \<open>h\<close> is settled. The promises of waiting callbacks
  are distinct and not settled. The numbers of the HTTP calls under way are distinct.
  A queue task under way is in \<^verbatim>\<open>sendShieldCommand\<close>, after its first or its second
  request.
\<close>

fun chain :: "nat \<Rightarrow> reaction list \<Rightarrow> nat \<Rightarrow> bool" where
  "chain h [] t = (h = t)"
| "chain h ((p, c, q) # R) t = (p = h \<and> chain q R t)"

definition resultsOf :: "reaction list \<Rightarrow> nat list" where
  "resultsOf R = map (\<lambda>(p, c, q). q) R"

definition cmdsOf :: "reaction list \<Rightarrow> string list" where
  "cmdsOf R = map (\<lambda>(p, c, q). c) R"

definition idsOk :: "pending \<Rightarrow> nat \<Rightarrow> bool" where
  "idsOk F nf = (distinct (map fst F) \<and> (\<forall>i \<in> set (map fst F). i < nf))"

definition contsOk :: "pending \<Rightarrow> bool" where
  "contsOk F = (\<forall>(i, k, c) \<in> set F. \<forall>cmd q. c = ByQueue cmd q \<longrightarrow> k = afterJson cmd \<or> k = response)"

definition promisesOk :: "reaction list \<Rightarrow> nat set \<Rightarrow> nat \<Rightarrow> bool" where
  "promisesOk R S N =
     (distinct (resultsOf R) \<and> (\<forall>q \<in> set (resultsOf R). q \<notin> S \<and> q < N) \<and> (\<forall>p \<in> S. p < N))"

definition chainOk :: "nat \<Rightarrow> reaction list \<Rightarrow> nat set \<Rightarrow> nat \<Rightarrow> pending \<Rightarrow> bool" where
  "chainOk cq R S N F =
     ((running F = [] \<and> (\<exists>h \<in> S. chain h R cq)) \<or>
      (\<exists>cmd q. running F = [ByQueue cmd q] \<and> q \<notin> S \<and> q < N \<and> q \<notin> set (resultsOf R) \<and>
         chain q R cq))"

definition QI ::
  "nat \<Rightarrow> reaction list \<Rightarrow> nat set \<Rightarrow> nat \<Rightarrow> pending \<Rightarrow> nat \<Rightarrow> string list \<Rightarrow>
     (nat \<times> request \<times> caller) list \<Rightarrow> bool" where
  "QI cq R S N F nf Q C =
     (idsOk F nf \<and> contsOk F \<and> Q = dispatchedIn C @ cmdsOf R \<and> promisesOk R S N \<and>
      chainOk cq R S N F)"

definition queueInv :: "bridge \<Rightarrow> bool" where
  "queueInv s =
     QI (cmdQ s) (reactions s) (settled s) (nextPromise s) (inflight s) (nextFetch s)
        (queued s) (calls s)"

definition queueView ::
  "bridge \<Rightarrow> nat \<times> reaction list \<times> nat set \<times> nat \<times> pending \<times> nat \<times> string list \<times>
     (nat \<times> request \<times> caller) list" where
  "queueView s =
     (cmdQ s, reactions s, settled s, nextPromise s, inflight s, nextFetch s, queued s, calls s)"

text \<open>Between two events: a queue task is running, or no callback waits.\<close>

definition idle :: "bridge \<Rightarrow> bool" where
  "idle s = (queueRunning s \<noteq> [] \<or> reactions s = [])"

text \<open>
  The stream lifecycle. Which awaits have a handler for a rejection: the queue task
  (\<^verbatim>\<open>.catch\<close>, line 173), \<^verbatim>\<open>startStream().catch(() => {})\<close> (line 484) and
  \<^verbatim>\<open>stopStream().catch(() => {})\<close> (line 489). The callback of \<^verbatim>\<open>server.listen\<close>
  (lines 437--442, the two \<^verbatim>\<open>/tcp\<close> calls) and the timer callback of line 423 (the
  start-stream call) have none.
\<close>

definition caught :: "caller \<Rightarrow> bool" where
  "caught c = (case c of ByStreamStart \<Rightarrow> False | ByTcp \<Rightarrow> False | ByTcpRetry \<Rightarrow> False | _ \<Rightarrow> True)"

text \<open>
  The event is a \<^verbatim>\<open>fetch\<close> that fails at the transport level, for a call made by one of
  the callers \<open>P\<close>; and the runs in which no event is one.
\<close>

definition rejects :: "(caller \<Rightarrow> bool) \<Rightarrow> bridge \<Rightarrow> event \<Rightarrow> bool" where
  "rejects P s e =
     (case e of
        FetchSettle i out \<Rightarrow>
          out = Rejected \<and>
          (case find (\<lambda>(j, k, c). j = i) (inflight s) of None \<Rightarrow> False | Some (j, k, c) \<Rightarrow> P c)
      | _ \<Rightarrow> False)"

fun noRejection :: "(caller \<Rightarrow> bool) \<Rightarrow> config \<Rightarrow> event list \<Rightarrow> bridge \<Rightarrow> bool" where
  "noRejection P cfg [] s = True"
| "noRejection P cfg (e # es) s = (\<not> rejects P s e \<and> noRejection P cfg es (step cfg e s))"

text \<open>How many times the byte \<^verbatim>\<open>b\<close> is received.\<close>

definition bytesB :: "event \<Rightarrow> nat" where
  "bytesB e = (case e of SerialData buf \<Rightarrow> count_list buf 0x62 | _ \<Rightarrow> 0)"

definition triggersB :: "event list \<Rightarrow> nat" where
  "triggersB evs = sum_list (map bytesB evs)"

text \<open>
  The sequence has run to its end: no timer of it is pending (the one set for the byte
  \<^verbatim>\<open>b\<close>, line 482, and the one before the start-stream call, line 422), and its
  stop-stream call is not under way.
\<close>

definition sequenceOver :: "bridge \<Rightarrow> bool" where
  "sequenceOver s =
     (filter (\<lambda>(d, cb). cb = TriggerB \<or> cb = SettleStart) (timers s) = [] \<and>
      filter (\<lambda>(i, k, c). c = ByStartStop) (inflight s) = [])"

text \<open>
  The invariant of the lifecycle when nothing but the stop-stream and start-stream calls is
  configured. The calls of \<^verbatim>\<open>startStream\<close> are those of the callers \<open>isSeq\<close>; the timers of
  the lifecycle are all but those set for the byte \<^verbatim>\<open>s\<close>. With \<open>n\<close> the number of
  bytes \<^verbatim>\<open>b\<close> received, \<open>a\<close> the value of \<^verbatim>\<open>stats.lastStartAt\<close> and \<open>t\<close> the time, the
  lifecycle is in one of five phases: nothing has happened; the timer of \<^verbatim>\<open>b\<close> is
  pending; the stop-stream call is under way, made at \<open>a\<close>; the timer of line 422 is
  pending, due at \<open>a + 1000\<close> or later; the start-stream call has been made, at
  \<open>a + 1000\<close> or later.
\<close>

definition isSeq :: "caller \<Rightarrow> bool" where
  "isSeq c = (case c of ByStartStop \<Rightarrow> True | ByInit \<Rightarrow> True | ByChannel k \<Rightarrow> True
     | ByStreamStart \<Rightarrow> True | _ \<Rightarrow> False)"

definition lifeTimers :: "(nat \<times> timer) list \<Rightarrow> (nat \<times> timer) list" where
  "lifeTimers T = filter (\<lambda>(d, cb). cb \<noteq> TriggerS) T"

definition seqFlight :: "pending \<Rightarrow> caller list" where
  "seqFlight F = filter isSeq (map (\<lambda>(i, k, c). c) F)"

definition seqCalls :: "(nat \<times> request \<times> caller) list \<Rightarrow> (nat \<times> request \<times> caller) list" where
  "seqCalls C = filter (\<lambda>(t, r, c). isSeq c) C"

definition phase ::
  "nat \<Rightarrow> (nat \<times> timer) list \<Rightarrow> caller list \<Rightarrow> (nat \<times> request \<times> caller) list \<Rightarrow> nat \<Rightarrow> nat \<Rightarrow> bool" where
  "phase n LT SF SC a t =
     ((n = 0 \<and> LT = [] \<and> SF = [] \<and> SC = []) \<or>
      (n = 1 \<and> (\<exists>d. LT = [(d, TriggerB)]) \<and> SF = [] \<and> SC = []) \<or>
      (n = 1 \<and> LT = [] \<and> SF = [ByStartStop] \<and> SC = [(a, Get ''/stream/stop'', ByStartStop)] \<and> a \<le> t) \<or>
      (n = 1 \<and> (\<exists>d. LT = [(d, SettleStart)] \<and> a + 1000 \<le> d) \<and> SF = [] \<and>
         SC = [(a, Get ''/stream/stop'', ByStartStop)]) \<or>
      (n = 1 \<and> LT = [] \<and> (SF = [] \<or> SF = [ByStreamStart]) \<and>
         (\<exists>u. SC = [(a, Get ''/stream/stop'', ByStartStop), (u, Get ''/stream/start'', ByStreamStart)] \<and>
              a + 1000 \<le> u)))"

text \<open>
  Besides: a call that is not the queue's continues with \<open>response\<close> only, and a
  start-stream call is made by the sequence only.
\<close>

definition contsPlain :: "pending \<Rightarrow> bool" where
  "contsPlain F = (\<forall>(i, k, c) \<in> set F. \<not> isQueue c \<longrightarrow> k = response)"

definition startsBySeq :: "(nat \<times> request \<times> caller) list \<Rightarrow> bool" where
  "startsBySeq C = (\<forall>(t, r, c) \<in> set C. \<not> isSeq c \<longrightarrow> r \<noteq> Get ''/stream/start'')"

definition LI ::
  "nat \<Rightarrow> (nat \<times> timer) list \<Rightarrow> pending \<Rightarrow> (nat \<times> request \<times> caller) list \<Rightarrow> nat \<Rightarrow> nat \<Rightarrow> bool" where
  "LI n T F C a t =
     (contsPlain F \<and> startsBySeq C \<and> phase n (lifeTimers T) (seqFlight F) (seqCalls C) a t)"

definition lifeInv :: "nat \<Rightarrow> bridge \<Rightarrow> bool" where
  "lifeInv n s = LI n (timers s) (inflight s) (calls s) (lastStartAt (stats s)) (now s)"

definition lifeView ::
  "bridge \<Rightarrow> (nat \<times> timer) list \<times> pending \<times> (nat \<times> request \<times> caller) list \<times> nat \<times> nat" where
  "lifeView s = (timers s, inflight s, calls s, lastStartAt (stats s), now s)"

section \<open>Termination of the loops\<close>

text \<open>Every pass through the loop body that goes on leaves the buffer shorter.\<close>

lemma indexOf_range: "indexOf xs v = - 1 \<or> (0 \<le> indexOf xs v \<and> nat (indexOf xs v) < length xs)"
  by (induction xs) (auto simp: Let_def)

lemma indexOf_head: "xs \<noteq> [] \<Longrightarrow> xs ! 0 \<noteq> v \<Longrightarrow> indexOf xs v \<noteq> 0"
  using indexOf_range [of "tl xs" v] by (cases xs) (auto simp: Let_def)

lemma writeToSerial_tcpBuffer: "tcpBuffer (writeToSerial f s) = tcpBuffer s"
  by (simp add: writeToSerial_def Let_def split: option.splits list.splits)

lemma loopBody_shorter:
  assumes "33 \<le> length (tcpBuffer s)" and "loopBody s = (Continue, s')"
  shows "length (tcpBuffer s') < length (tcpBuffer s)"
proof -
  from assms(1) have ne: "tcpBuffer s \<noteq> []" by auto
  show ?thesis
  proof (cases "tcpBuffer s ! 0 = 0xA0")
    case True
    with assms show ?thesis
      by (auto simp: loopBody_def Let_def writeToSerial_tcpBuffer split: if_splits)
  next
    case False
    from indexOf_head [OF ne False] indexOf_range [of "tcpBuffer s" "0xA0"]
    have "indexOf (tcpBuffer s) 0xA0 = - 1 \<or> 0 < nat (indexOf (tcpBuffer s) 0xA0)"
      by auto
    with False assms show ?thesis
      by (auto simp: loopBody_def Let_def split: if_splits)
  qed
qed

termination processTcpBuffer
  by (relation "measure (\<lambda>s. length (tcpBuffer s))") (auto simp: loopBody_shorter)

declare processTcpBuffer.simps [simp del]

lemma dropWhile_shorter: "xs \<noteq> [] \<Longrightarrow> P (xs ! 0) \<Longrightarrow> length (dropWhile P xs) < length xs"
  by (cases xs) (auto intro: le_imp_less_Suc length_dropWhile_le)

termination scan
  by (relation "measure length") (auto intro: dropWhile_shorter)

declare scan.simps [simp del]

section \<open>Bytes\<close>

lemma all8: "(\<forall>n<8. P (n::nat)) = (P 0 \<and> P 1 \<and> P 2 \<and> P 3 \<and> P 4 \<and> P 5 \<and> P 6 \<and> P 7)"
  (is "?L = ?R")
proof
  assume ?L then show ?R by simp
next
  assume r: ?R
  show ?L
  proof (intro allI impI)
    fix n :: nat assume "n < 8"
    then have "n \<in> {0, 1, 2, 3, 4, 5, 6, 7}" by auto
    with r show "P n" by auto
  qed
qed

lemma byte_eq_bits: "((a::byte) = b) = (\<forall>n<8. bit a n = bit b n)"
  by (auto intro: bit_word_eqI)

lemma high_nibble: "((x::byte) AND 0xF0 = 0xC0) = (drop_bit 4 x = 0xC)"
  by (simp add: byte_eq_bits all8 bit_simps) (auto dest: bit_imp_le_length)

section \<open>The reassembly pass, case by case\<close>

lemma writeToSerial_stats_tcp:
  "tcpFramesOk (stats (writeToSerial f s)) = tcpFramesOk (stats s)"
  "tcpFramesBad (stats (writeToSerial f s)) = tcpFramesBad (stats s)"
  by (simp_all add: writeToSerial_def Let_def split: option.splits list.splits)

lemma writeToSerial_emitted: "emitted (writeToSerial f s) = emitted s @ [f]"
  by (simp add: writeToSerial_def Let_def split: option.splits list.splits)

lemma indexOf_none: "(indexOf xs v = - 1) = (v \<notin> set xs)"
proof (induction xs)
  case Nil
  show ?case by simp
next
  case (Cons x xs)
  from indexOf_range [of xs v] Cons show ?case by (auto simp: Let_def)
qed

lemma indexOf_drop: "v \<in> set xs \<Longrightarrow> drop (nat (indexOf xs v)) xs = dropWhile (\<lambda>x. x \<noteq> v) xs"
proof (induction xs)
  case Nil
  then show ?case by simp
next
  case (Cons x xs)
  show ?case
  proof (cases "x = v")
    case True
    then show ?thesis by simp
  next
    case False
    with Cons.prems have m: "v \<in> set xs" by simp
    then have n1: "indexOf xs v \<noteq> - 1" by (simp add: indexOf_none)
    with indexOf_range [of xs v] have "0 \<le> indexOf xs v" by auto
    then have "nat (indexOf xs v + 1) = Suc (nat (indexOf xs v))" by simp
    with False n1 Cons.IH [OF m] show ?thesis by (simp add: Let_def)
  qed
qed

lemma pass_short: "length (tcpBuffer s) < 33 \<Longrightarrow> processTcpBuffer s = s"
  by (simp add: processTcpBuffer.simps [of s])

lemma pass_flush:
  assumes "33 \<le> length (tcpBuffer s)" "tcpBuffer s ! 0 \<noteq> 0xA0" "0xA0 \<notin> set (tcpBuffer s)"
  shows "processTcpBuffer s = s\<lparr>tcpBuffer := []\<rparr>"
proof -
  from assms(3) have "indexOf (tcpBuffer s) 0xA0 = - 1" by (simp add: indexOf_none)
  with assms have "loopBody s = (Return, s\<lparr>tcpBuffer := []\<rparr>)"
    by (simp add: loopBody_def Let_def)
  with assms(1) show ?thesis by (simp add: processTcpBuffer.simps [of s])
qed

lemma pass_skip:
  assumes "33 \<le> length (tcpBuffer s)" "tcpBuffer s ! 0 \<noteq> 0xA0" "0xA0 \<in> set (tcpBuffer s)"
  shows "processTcpBuffer s = processTcpBuffer (s\<lparr>tcpBuffer := dropWhile (\<lambda>x. x \<noteq> 0xA0) (tcpBuffer s)\<rparr>)"
proof -
  from assms(3) have "indexOf (tcpBuffer s) 0xA0 \<noteq> - 1" by (simp add: indexOf_none)
  with assms indexOf_drop [OF assms(3)]
  have "loopBody s = (Continue, s\<lparr>tcpBuffer := dropWhile (\<lambda>x. x \<noteq> 0xA0) (tcpBuffer s)\<rparr>)"
    by (simp add: loopBody_def Let_def)
  with assms(1) show ?thesis by (simp add: processTcpBuffer.simps [of s])
qed

lemma pass_bad:
  assumes "33 \<le> length (tcpBuffer s)" "tcpBuffer s ! 0 = 0xA0" "tcpBuffer s ! 32 AND 0xF0 \<noteq> 0xC0"
  shows "processTcpBuffer s = processTcpBuffer ((countBad s)\<lparr>tcpBuffer := drop 1 (tcpBuffer s)\<rparr>)"
proof -
  from assms have "loopBody s = (Continue, (countBad s)\<lparr>tcpBuffer := drop 1 (tcpBuffer s)\<rparr>)"
    by (simp add: loopBody_def Let_def countBad_def)
  with assms(1) show ?thesis by (simp add: processTcpBuffer.simps [of s])
qed

lemma pass_good:
  assumes "33 \<le> length (tcpBuffer s)" "tcpBuffer s ! 0 = 0xA0" "tcpBuffer s ! 32 AND 0xF0 = 0xC0"
  shows "processTcpBuffer s =
           processTcpBuffer ((writeToSerial (take 33 (tcpBuffer s)) (countOk s))
              \<lparr>tcpBuffer := drop 33 (tcpBuffer s)\<rparr>)"
proof -
  from assms have "loopBody s =
      (Continue, (writeToSerial (take 33 (tcpBuffer s)) (countOk s))\<lparr>tcpBuffer := drop 33 (tcpBuffer s)\<rparr>)"
    by (simp add: loopBody_def Let_def countOk_def writeToSerial_tcpBuffer)
  with assms(1) show ?thesis by (simp add: processTcpBuffer.simps [of s])
qed

lemma pass_induct [case_names short flush skip bad good]:
  assumes short: "\<And>s. length (tcpBuffer s) < 33 \<Longrightarrow> P s"
    and flush: "\<And>s. 33 \<le> length (tcpBuffer s) \<Longrightarrow> tcpBuffer s ! 0 \<noteq> 0xA0 \<Longrightarrow>
                  0xA0 \<notin> set (tcpBuffer s) \<Longrightarrow> P s"
    and skip: "\<And>s. 33 \<le> length (tcpBuffer s) \<Longrightarrow> tcpBuffer s ! 0 \<noteq> 0xA0 \<Longrightarrow>
                  0xA0 \<in> set (tcpBuffer s) \<Longrightarrow>
                  P (s\<lparr>tcpBuffer := dropWhile (\<lambda>x. x \<noteq> 0xA0) (tcpBuffer s)\<rparr>) \<Longrightarrow> P s"
    and bad: "\<And>s. 33 \<le> length (tcpBuffer s) \<Longrightarrow> tcpBuffer s ! 0 = 0xA0 \<Longrightarrow>
                  tcpBuffer s ! 32 AND 0xF0 \<noteq> 0xC0 \<Longrightarrow>
                  P ((countBad s)\<lparr>tcpBuffer := drop 1 (tcpBuffer s)\<rparr>) \<Longrightarrow> P s"
    and good: "\<And>s. 33 \<le> length (tcpBuffer s) \<Longrightarrow> tcpBuffer s ! 0 = 0xA0 \<Longrightarrow>
                  tcpBuffer s ! 32 AND 0xF0 = 0xC0 \<Longrightarrow>
                  P ((writeToSerial (take 33 (tcpBuffer s)) (countOk s))
                       \<lparr>tcpBuffer := drop 33 (tcpBuffer s)\<rparr>) \<Longrightarrow> P s"
  shows "P s"
proof (induction "length (tcpBuffer s)" arbitrary: s rule: less_induct)
  case less
  show ?case
  proof (cases "33 \<le> length (tcpBuffer s)")
    case False
    then show ?thesis by (simp add: short)
  next
    case True
    then have ne: "tcpBuffer s \<noteq> []" by auto
    show ?thesis
    proof (cases "tcpBuffer s ! 0 = 0xA0")
      case sync: True
      show ?thesis
      proof (cases "tcpBuffer s ! 32 AND 0xF0 = 0xC0")
        case True
        with \<open>33 \<le> length (tcpBuffer s)\<close> sync show ?thesis
          by (rule_tac good) (simp_all add: less)
      next
        case False
        with \<open>33 \<le> length (tcpBuffer s)\<close> sync show ?thesis
          by (rule_tac bad) (simp_all add: less countBad_def)
      qed
    next
      case nosync: False
      show ?thesis
      proof (cases "0xA0 \<in> set (tcpBuffer s)")
        case True
        with \<open>33 \<le> length (tcpBuffer s)\<close> nosync ne show ?thesis
          by (rule_tac skip) (simp_all add: less dropWhile_shorter)
      next
        case False
        with \<open>33 \<le> length (tcpBuffer s)\<close> nosync show ?thesis by (rule_tac flush)
      qed
    qed
  qed
qed

lemma processTcpBuffer_short: "length (tcpBuffer (processTcpBuffer s)) < 33"
proof (induction s rule: pass_induct)
  case (short s) then show ?case by (simp add: pass_short)
next
  case (flush s) then show ?case by (simp add: pass_flush)
next
  case (skip s) then show ?case by (simp add: pass_skip)
next
  case (bad s) then show ?case by (simp add: pass_bad)
next
  case (good s) then show ?case by (simp add: pass_good)
qed

lemma process_scan:
  "emitted (processTcpBuffer s) = emitted s @ fst (scan (tcpBuffer s)) \<and>
   tcpBuffer (processTcpBuffer s) = snd (scan (tcpBuffer s))"
proof (induction s rule: pass_induct)
  case (short s) then show ?case by (simp add: pass_short scan.simps [of "tcpBuffer s"])
next
  case (flush s) then show ?case by (simp add: pass_flush scan.simps [of "tcpBuffer s"])
next
  case (skip s) then show ?case by (simp add: pass_skip scan.simps [of "tcpBuffer s"])
next
  case (bad s) then show ?case
    by (simp add: pass_bad scan.simps [of "tcpBuffer s"] countBad_def)
next
  case (good s) then show ?case
    by (simp add: pass_good scan.simps [of "tcpBuffer s"] countOk_def writeToSerial_emitted
          split: prod.splits)
qed

lemma scan_short: "length buf < 33 \<Longrightarrow> scan buf = ([], buf)"
  by (simp add: scan.simps [of buf])

lemma scan_flush:
  "33 \<le> length buf \<Longrightarrow> buf ! 0 \<noteq> 0xA0 \<Longrightarrow> 0xA0 \<notin> set buf \<Longrightarrow> scan buf = ([], [])"
  by (simp add: scan.simps [of buf])

lemma scan_resync:
  "33 \<le> length buf \<Longrightarrow> buf ! 0 \<noteq> 0xA0 \<Longrightarrow> 0xA0 \<in> set buf \<Longrightarrow>
     scan buf = scan (dropWhile (\<lambda>x. x \<noteq> 0xA0) buf)"
  by (simp add: scan.simps [of buf])

lemma scan_bad:
  "33 \<le> length buf \<Longrightarrow> buf ! 0 = 0xA0 \<Longrightarrow> buf ! 32 AND 0xF0 \<noteq> 0xC0 \<Longrightarrow>
     scan buf = scan (drop 1 buf)"
  by (simp add: scan.simps [of buf])

lemma scan_good:
  "33 \<le> length buf \<Longrightarrow> buf ! 0 = 0xA0 \<Longrightarrow> buf ! 32 AND 0xF0 = 0xC0 \<Longrightarrow>
     scan buf = (take 33 buf # fst (scan (drop 33 buf)), snd (scan (drop 33 buf)))"
  by (simp add: scan.simps [of buf] split: prod.splits)

lemma scan_skip: "fst (scan (dropWhile (\<lambda>x. x \<noteq> 0xA0) c)) = fst (scan c)"
proof (cases "33 \<le> length c")
  case False
  moreover have "length (dropWhile (\<lambda>x. x \<noteq> 0xA0) c) \<le> length c" by (rule length_dropWhile_le)
  ultimately show ?thesis by (simp add: scan_short)
next
  case True
  then obtain x xs where c: "c = x # xs" by (cases c) auto
  show ?thesis
  proof (cases "x = 0xA0")
    case True
    with c show ?thesis by simp
  next
    case False
    with c have nz: "c ! 0 \<noteq> 0xA0" by simp
    show ?thesis
    proof (cases "0xA0 \<in> set c")
      case True
      with \<open>33 \<le> length c\<close> nz show ?thesis by (simp add: scan_resync)
    next
      case False
      then have dw: "dropWhile (\<lambda>x. x \<noteq> 0xA0) c = []" by auto
      from \<open>33 \<le> length c\<close> nz False have "scan c = ([], [])" by (rule scan_flush)
      then show ?thesis unfolding dw by (simp add: scan_short)
    qed
  qed
qed

lemma scan_append: "fst (scan (B @ c)) = fst (scan B) @ fst (scan (snd (scan B) @ c))"
proof (induction B rule: scan.induct)
  case (1 buf)
  show ?case
  proof (cases "33 \<le> length buf")
    case False
    then show ?thesis by (simp add: scan_short)
  next
    case True
    then have ne: "buf \<noteq> []" by auto
    from True have len: "33 \<le> length (buf @ c)" by simp
    from ne have h0: "(buf @ c) ! 0 = buf ! 0" by (cases buf) simp_all
    from True have h32: "(buf @ c) ! 32 = buf ! 32" by (simp add: nth_append)
    show ?thesis
    proof (cases "buf ! 0 = 0xA0")
      case sync: True
      show ?thesis
      proof (cases "buf ! 32 AND 0xF0 = 0xC0")
        case good: True
        from True sync good have "scan (buf @ c) =
            (take 33 buf # fst (scan (drop 33 buf @ c)), snd (scan (drop 33 buf @ c)))"
          using scan_good [OF len] h0 h32 by simp
        moreover from 1(3) True sync good
        have "fst (scan (drop 33 buf @ c)) =
                fst (scan (drop 33 buf)) @ fst (scan (snd (scan (drop 33 buf)) @ c))" by simp
        ultimately show ?thesis using scan_good [OF True sync good] by simp
      next
        case bad: False
        from True sync bad have "scan (buf @ c) = scan (drop 1 buf @ c)"
          using scan_bad [OF len] h0 h32 by simp
        moreover from 1(2) True sync bad
        have "fst (scan (drop 1 buf @ c)) =
                fst (scan (drop 1 buf)) @ fst (scan (snd (scan (drop 1 buf)) @ c))" by simp
        ultimately show ?thesis using scan_bad [OF True sync bad] by simp
      qed
    next
      case nosync: False
      show ?thesis
      proof (cases "0xA0 \<in> set buf")
        case found: True
        from True nosync found have "scan (buf @ c) = scan (dropWhile (\<lambda>x. x \<noteq> 0xA0) buf @ c)"
          using scan_resync [OF len] h0 by (simp add: dropWhile_append1)
        moreover from 1(1) True nosync found
        have "fst (scan (dropWhile (\<lambda>x. x \<noteq> 0xA0) buf @ c)) =
                fst (scan (dropWhile (\<lambda>x. x \<noteq> 0xA0) buf)) @
                fst (scan (snd (scan (dropWhile (\<lambda>x. x \<noteq> 0xA0) buf)) @ c))" by simp
        ultimately show ?thesis using scan_resync [OF True nosync found] by simp
      next
        case none: False
        have dw: "dropWhile (\<lambda>x. x \<noteq> 0xA0) (buf @ c) = dropWhile (\<lambda>x. x \<noteq> 0xA0) c"
          using none by (intro dropWhile_append2) auto
        have "fst (scan (buf @ c)) = fst (scan c)"
        proof (cases "0xA0 \<in> set c")
          case True
          with nosync h0 dw scan_resync [OF len] show ?thesis by (simp add: scan_skip)
        next
          case False
          then have dwc: "dropWhile (\<lambda>x. x \<noteq> 0xA0) c = []" by auto
          have "fst (scan c) = []" using scan_skip [of c] unfolding dwc by (simp add: scan_short)
          with nosync h0 none False scan_flush [OF len] show ?thesis by simp
        qed
        with scan_flush [OF True nosync none] show ?thesis by simp
      qed
    qed
  qed
qed

lemma onData_emitted:
  "emitted (onData chunk s) = emitted s @ fst (scan (tcpBuffer s @ chunk))"
  "tcpBuffer (onData chunk s) = snd (scan (tcpBuffer s @ chunk))"
  by (simp_all add: onData_def process_scan)

section \<open>The data path is left alone by the other handlers\<close>

lemma dataView_start [simp]: "dataView (start p c s) = dataView s"
  by (simp add: dataView_def start_def split: aw.splits)

lemma dataView_setTimeout [simp]: "dataView (setTimeout cb ms s) = dataView s"
  by (simp add: dataView_def setTimeout_def)

lemma dataView_queueCmd [simp]: "dataView (queueCmd cmd s) = dataView s"
  by (simp add: dataView_def queueCmd_def)

lemma dataView_fold:
  assumes "\<And>x s. dataView (f x s) = dataView s"
  shows "dataView (fold f xs s) = dataView s"
  by (induction xs arbitrary: s) (simp_all add: assms)

lemma dataView_runMicrotasks [simp]: "dataView (runMicrotasks s) = dataView s"
proof -
  have "dataView (runMicrotasks s) = dataView (s\<lparr>reactions := filter (\<lambda>(p, cmd, q). p \<notin> settled s) (reactions s)\<rparr>)"
    unfolding runMicrotasks_def Let_def
    by (rule dataView_fold) (simp split: prod.splits)
  then show ?thesis by (simp add: dataView_def)
qed

lemma dataView_feedByte [simp]: "dataView (feedByte b s) = dataView s"
proof -
  have u: "\<And>s c. dataView (s\<lparr>cmdBuf := c\<rparr>) = dataView s" by (simp add: dataView_def)
  show ?thesis by (simp add: feedByte_def Let_def u)
qed

lemma dataView_feedCmdBytes [simp]: "dataView (feedCmdBytes buf s) = dataView s"
proof -
  have "dataView (feedCmdBytes buf s) = dataView (s\<lparr>stats := (stats s)\<lparr>lastBioAt := now s\<rparr>\<rparr>)"
    unfolding feedCmdBytes_def by (rule dataView_fold) simp
  then show ?thesis by (simp add: dataView_def)
qed

lemma dataView_trigger [simp]: "dataView (trigger b s) = dataView s"
  by (simp add: trigger_def Let_def)

lemma dataView_onSerialData [simp]: "dataView (onSerialData buf s) = dataView s"
proof -
  have "dataView (onSerialData buf s) = dataView (feedCmdBytes buf s)"
    unfolding onSerialData_def by (rule dataView_fold) simp
  then show ?thesis by simp
qed

lemma dataView_stopStream [simp]: "dataView (stopStream c s) = dataView s"
  by (simp add: stopStream_def) (simp add: dataView_def)

lemma dataView_startStream [simp]: "dataView (startStream s) = dataView s"
  by (simp add: startStream_def) (simp add: dataView_def)

lemma dataView_startServer [simp]: "dataView (startServer s) = dataView s"
  by (simp add: startServer_def dataView_def)

lemma dataView_fireTimer [simp]: "dataView (fireTimer cb s) = dataView s"
  by (simp add: fireTimer_def split: timer.splits)

lemma dataView_channelLoop [simp]: "dataView (channelLoop cfg k s) = dataView s"
  by (simp add: channelLoop_def)

lemma dataView_returned [simp]: "dataView (returned cfg c r s) = dataView s"
proof -
  have u: "\<And>s d st. dataView (s\<lparr>cmdQueueDepth := d, settled := st\<rparr>) = dataView s"
    by (simp add: dataView_def)
  show ?thesis by (cases "(cfg, c, r, s)" rule: returned.cases) (simp_all add: u)
qed

lemma dataView_resume [simp]: "dataView (resume cfg p c s) = dataView s"
  by (simp add: resume_def split: aw.splits)

lemma dataView_handle: "\<not> dataEvent e \<Longrightarrow> dataView (handle cfg e s) = dataView s"
proof -
  have u: "\<And>s x. dataView (s\<lparr>timers := x\<rparr>) = dataView s"
    "\<And>s x. dataView (s\<lparr>inflight := x\<rparr>) = dataView s"
    "\<And>s x. dataView (s\<lparr>listenPending := x\<rparr>) = dataView s"
    "\<And>s x. dataView (s\<lparr>now := x\<rparr>) = dataView s"
    by (simp_all add: dataView_def)
  show "\<not> dataEvent e \<Longrightarrow> dataView (handle cfg e s) = dataView s"
    by (cases e) (simp_all add: handle_def dataEvent_def u split: option.splits prod.splits)
qed

lemma dataViewD:
  assumes "dataView a = dataView b"
  shows "currentSocket a = currentSocket b" "tcpBuffer a = tcpBuffer b"
    "pausedBySerialBackpressure a = pausedBySerialBackpressure b"
    "tcpFramesOk (stats a) = tcpFramesOk (stats b)" "tcpFramesBad (stats a) = tcpFramesBad (stats b)"
    "serialFrames (stats a) = serialFrames (stats b)" "serialBytes (stats a) = serialBytes (stats b)"
    "lastSerialAt (stats a) = lastSerialAt (stats b)"
    "serialWritable a = serialWritable b" "serialOks a = serialOks b"
    "emitted a = emitted b" "written a = written b" "signals a = signals b"
  using assms by (simp_all add: dataView_def)

lemma run_snoc: "run cfg (evs @ [e]) s = step cfg e (run cfg evs s)"
  by (simp add: run_def)

lemma run_invariant:
  assumes "P (init t0)" and "\<And>e s. P s \<Longrightarrow> P (step cfg e s)"
  shows "P (run cfg evs (init t0))"
proof (induction evs rule: rev_induct)
  case Nil
  from assms(1) show ?case by (simp add: run_def)
next
  case (snoc e evs)
  then show ?case by (simp add: run_snoc assms(2))
qed

section \<open>Flow control\<close>

lemma afterSignals_append:
  "afterSignals p (xs @ ys) = (case afterSignals p xs of None \<Rightarrow> None | Some q \<Rightarrow> afterSignals q ys)"
  by (induction p xs rule: afterSignals.induct) simp_all

lemma silent_same:
  "currentSocket b = currentSocket a \<Longrightarrow> signals b = signals a \<Longrightarrow>
   pausedBySerialBackpressure b = pausedBySerialBackpressure a \<Longrightarrow> written b = written a \<Longrightarrow>
   silent a b"
  by (simp add: silent_def)

lemma silent_silent: "silent a b \<Longrightarrow> silent b c \<Longrightarrow> silent a c"
  unfolding silent_def by (elim conjE exE) simp

lemma silent_pausing: "silent a b \<Longrightarrow> pausing b c \<Longrightarrow> pausing a c"
proof -
  assume ab: "silent a b" and bc: "pausing b c"
  from ab obtain w1 where ab': "currentSocket b = currentSocket a" "signals b = signals a"
    "pausedBySerialBackpressure b = pausedBySerialBackpressure a" "written b = written a @ w1"
    unfolding silent_def by blast
  from bc obtain sock w2 g where bc': "currentSocket c = currentSocket b"
    "currentSocket b = Some sock" "\<not> pausedBySerialBackpressure b" "pausedBySerialBackpressure c"
    "signals c = signals b @ [Pause sock]" "written c = written b @ w2" "(g, False) \<in> set w2"
    unfolding pausing_def by blast
  have "written c = written a @ (w1 @ w2)" "(g, False) \<in> set (w1 @ w2)"
    using ab' bc' by simp_all
  with ab' bc' show "pausing a c" unfolding pausing_def by auto
qed

lemma pausing_silent: "pausing a b \<Longrightarrow> silent b c \<Longrightarrow> pausing a c"
proof -
  assume ab: "pausing a b" and bc: "silent b c"
  from bc obtain w2 where bc': "currentSocket c = currentSocket b" "signals c = signals b"
    "pausedBySerialBackpressure c = pausedBySerialBackpressure b" "written c = written b @ w2"
    unfolding silent_def by blast
  from ab obtain sock w1 g where ab': "currentSocket b = currentSocket a"
    "currentSocket a = Some sock" "\<not> pausedBySerialBackpressure a" "pausedBySerialBackpressure b"
    "signals b = signals a @ [Pause sock]" "written b = written a @ w1" "(g, False) \<in> set w1"
    unfolding pausing_def by blast
  have "written c = written a @ (w1 @ w2)" "(g, False) \<in> set (w1 @ w2)"
    using ab' bc' by simp_all
  with ab' bc' show "pausing a c" unfolding pausing_def by auto
qed

lemma pausing_pausing: "pausing a b \<Longrightarrow> pausing b c \<Longrightarrow> False"
  unfolding pausing_def by blast

lemma writeToSerial_flow: "silent s (writeToSerial f s) \<or> pausing s (writeToSerial f s)"
proof (cases "serialWritable s")
  case False
  then have "silent s (writeToSerial f s)"
    by (intro silent_same) (simp_all add: writeToSerial_def)
  then show ?thesis ..
next
  case True
  let ?okw = "case serialOks s of [] \<Rightarrow> True | r # x \<Rightarrow> r"
  have wr: "written (writeToSerial f s) = written s @ [(f, ?okw)]"
    using True by (simp add: writeToSerial_def Let_def split: option.splits)
  have cs: "currentSocket (writeToSerial f s) = currentSocket s"
    using True by (simp add: writeToSerial_def Let_def split: option.splits)
  show ?thesis
  proof (cases "\<not> ?okw \<and> \<not> pausedBySerialBackpressure s \<and> currentSocket s \<noteq> None")
    case True
    then obtain sock where sk: "currentSocket s = Some sock" by auto
    with True \<open>serialWritable s\<close>
    have "pausedBySerialBackpressure (writeToSerial f s)"
      "signals (writeToSerial f s) = signals s @ [Pause sock]"
      by (simp_all add: writeToSerial_def Let_def)
    with True sk wr cs have "pausing s (writeToSerial f s)"
      unfolding pausing_def by auto
    then show ?thesis ..
  next
    case False
    with \<open>serialWritable s\<close>
    have "pausedBySerialBackpressure (writeToSerial f s) = pausedBySerialBackpressure s"
      "signals (writeToSerial f s) = signals s"
      by (auto simp: writeToSerial_def Let_def split: option.splits)
    with wr cs have "silent s (writeToSerial f s)" unfolding silent_def by simp
    then show ?thesis ..
  qed
qed

lemma pass_flow: "silent s (processTcpBuffer s) \<or> pausing s (processTcpBuffer s)"
proof (induction s rule: pass_induct)
  case (short s) then show ?case by (simp add: pass_short silent_def)
next
  case (flush s) then show ?case by (simp add: pass_flush silent_def)
next
  case (skip s)
  have "silent s (s\<lparr>tcpBuffer := dropWhile (\<lambda>x. x \<noteq> 0xA0) (tcpBuffer s)\<rparr>)"
    by (simp add: silent_def)
  with skip(4) show ?case unfolding pass_skip [OF skip(1,2,3)]
    by (blast intro: silent_silent silent_pausing)
next
  case (bad s)
  have "silent s ((countBad s)\<lparr>tcpBuffer := drop 1 (tcpBuffer s)\<rparr>)"
    by (simp add: silent_def countBad_def)
  with bad(4) show ?case unfolding pass_bad [OF bad(1,2,3)]
    by (blast intro: silent_silent silent_pausing)
next
  case (good s)
  let ?w = "writeToSerial (take 33 (tcpBuffer s)) (countOk s)"
  let ?s1 = "?w\<lparr>tcpBuffer := drop 33 (tcpBuffer s)\<rparr>"
  have a: "silent s (countOk s)" by (simp add: silent_def countOk_def)
  have c: "silent ?w ?s1" by (simp add: silent_def)
  from writeToSerial_flow [of "countOk s" "take 33 (tcpBuffer s)"] a c
  have "silent s ?s1 \<or> pausing s ?s1"
    by (blast intro: silent_silent silent_pausing pausing_silent)
  with good(4) show ?case unfolding pass_good [OF good(1,2,3)]
    by (blast intro: silent_silent silent_pausing pausing_silent dest: pausing_pausing)
qed

lemma quiet_view: "dataView b = dataView a \<Longrightarrow> quiet a b"
  by (simp add: quiet_def dataView_def)

lemma silent_quiet: "silent a b \<Longrightarrow> quiet a b"
  by (simp add: silent_def quiet_def)

lemma silent_view: "dataView b = dataView b' \<Longrightarrow> silent a b' \<Longrightarrow> silent a b"
  by (simp add: silent_def dataView_def)

lemma pausing_view: "dataView b = dataView b' \<Longrightarrow> pausing a b' \<Longrightarrow> pausing a b"
  by (simp add: pausing_def dataView_def)

lemma resuming_view: "dataView b = dataView b' \<Longrightarrow> resuming a b' \<Longrightarrow> resuming a b"
  by (simp add: resuming_def dataView_def)

lemma onData_flow: "silent s (onData chunk s) \<or> pausing s (onData chunk s)"
proof -
  let ?s0 = "s\<lparr>stats := (stats s)\<lparr>tcpBytes := tcpBytes (stats s) + length chunk, lastTcpAt := now s\<rparr>,
          tcpBuffer := (if length (tcpBuffer s) \<noteq> 0 then tcpBuffer s @ chunk else chunk)\<rparr>"
  have "silent s ?s0" by (simp add: silent_def)
  with pass_flow [of ?s0] show ?thesis unfolding onData_def
    by (blast intro: silent_silent silent_pausing)
qed

lemma onDrain_flow: "quiet s (onDrain s) \<or> resuming s (onDrain s)"
  by (auto simp: onDrain_def quiet_def resuming_def split: option.splits)

lemma step_flow:
  "quiet s (step cfg e s)
   \<or> ((\<exists>sk chunk. e = TcpData sk chunk) \<and> pausing s (step cfg e s))
   \<or> (e = SerialDrain \<and> resuming s (step cfg e s))"
proof (cases "dataEvent e")
  case False
  then have "dataView (step cfg e s) = dataView s" by (simp add: step_def dataView_handle)
  then show ?thesis by (simp add: quiet_view)
next
  case True
  have v: "dataView (step cfg e s) = dataView (handle cfg e s)" by (simp add: step_def)
  show ?thesis
  proof (cases e)
    case SerialDrain
    with onDrain_flow [of s] v show ?thesis
      by (auto simp: handle_def intro: quiet_view resuming_view simp: quiet_def dataView_def)
  next
    case (SerialPort w oks)
    then have "quiet s (handle cfg e s)" by (simp add: handle_def quiet_def)
    with v show ?thesis by (simp add: quiet_def dataView_def)
  next
    case (TcpConnection sock)
    then have "quiet s (handle cfg e s)" by (simp add: handle_def quiet_def onConnection_def)
    with v show ?thesis by (simp add: quiet_def dataView_def)
  next
    case (TcpData sk chunk)
    with onData_flow [of s chunk] have "silent s (handle cfg e s) \<or> pausing s (handle cfg e s)"
      by (simp add: handle_def)
    with v TcpData show ?thesis
      by (blast intro: silent_quiet silent_view pausing_view)
  next
    case (TcpClose sock)
    then have "quiet s (handle cfg e s)" by (simp add: handle_def quiet_def onClose_def)
    with v show ?thesis by (simp add: quiet_def dataView_def)
  qed (use True in \<open>simp_all add: dataEvent_def\<close>)
qed

lemma flow_invariant:
  "afterSignals False (signals (run cfg evs (init t0))) =
     Some (pausedBySerialBackpressure (run cfg evs (init t0)))"
proof (rule run_invariant)
  show "afterSignals False (signals (init t0)) = Some (pausedBySerialBackpressure (init t0))"
    by (simp add: init_def)
next
  fix e and s :: bridge
  assume inv: "afterSignals False (signals s) = Some (pausedBySerialBackpressure s)"
  from step_flow [of s cfg e]
  show "afterSignals False (signals (step cfg e s)) = Some (pausedBySerialBackpressure (step cfg e s))"
  proof (elim disjE conjE)
    assume "quiet s (step cfg e s)"
    with inv show ?thesis by (simp add: quiet_def)
  next
    assume "pausing s (step cfg e s)"
    with inv show ?thesis by (auto simp: pausing_def afterSignals_append)
  next
    assume "resuming s (step cfg e s)"
    with inv show ?thesis by (auto simp: resuming_def afterSignals_append)
  qed
qed

lemma writeToSerial_counts:
  "tcpFramesOk (stats (writeToSerial f s)) = tcpFramesOk (stats s)"
  "serialFrames (stats (writeToSerial f s)) \<le> serialFrames (stats s) + 1"
  by (simp_all add: writeToSerial_def Let_def split: option.splits list.splits)

lemma pass_counts:
  "serialFrames (stats (processTcpBuffer s)) + tcpFramesOk (stats s)
     \<le> tcpFramesOk (stats (processTcpBuffer s)) + serialFrames (stats s)"
proof (induction s rule: pass_induct)
  case (short s) then show ?case by (simp add: pass_short)
next
  case (flush s) then show ?case by (simp add: pass_flush)
next
  case (skip s) then show ?case by (simp add: pass_skip)
next
  case (bad s) then show ?case by (simp add: pass_bad countBad_def)
next
  case (good s)
  from writeToSerial_counts [of "take 33 (tcpBuffer s)" "countOk s"] good(4)
  show ?case unfolding pass_good [OF good(1,2,3)] by (simp add: countOk_def)
qed

lemma counts_invariant:
  "serialFrames (stats (run cfg evs (init t0))) \<le> tcpFramesOk (stats (run cfg evs (init t0)))"
proof (rule run_invariant)
  show "serialFrames (stats (init t0)) \<le> tcpFramesOk (stats (init t0))" by (simp add: init_def)
next
  fix e and s :: bridge
  assume inv: "serialFrames (stats s) \<le> tcpFramesOk (stats s)"
  have v: "dataView (step cfg e s) = dataView (handle cfg e s)" by (simp add: step_def)
  have "serialFrames (stats (handle cfg e s)) \<le> tcpFramesOk (stats (handle cfg e s))"
  proof (cases "dataEvent e")
    case False
    from dataViewD(4,6) [OF dataView_handle [OF False, of cfg s]] inv show ?thesis by simp
  next
    case True
    show ?thesis
    proof (cases e)
      case (TcpData sk chunk)
      let ?s0 = "s\<lparr>stats := (stats s)\<lparr>tcpBytes := tcpBytes (stats s) + length chunk, lastTcpAt := now s\<rparr>,
          tcpBuffer := (if length (tcpBuffer s) \<noteq> 0 then tcpBuffer s @ chunk else chunk)\<rparr>"
      from pass_counts [of ?s0] inv TcpData show ?thesis by (simp add: handle_def onData_def)
    qed (use True inv in \<open>simp_all add: dataEvent_def handle_def onDrain_def onConnection_def
          onClose_def split: option.splits\<close>)
  qed
  with dataViewD(4,6) [OF v] show "serialFrames (stats (step cfg e s)) \<le> tcpFramesOk (stats (step cfg e s))"
    by simp
qed

section \<open>Between two events no reaction is ready\<close>

lemma start_queue [simp]:
  "reactions (start p c s) = reactions s" "settled (start p c s) = settled s"
  by (simp_all add: start_def split: aw.splits)

lemma fold_start_queue:
  "reactions (fold (\<lambda>(p, cmd, q). start (sendShieldCommand cmd) (ByQueue cmd q)) rs s) = reactions s"
  "settled (fold (\<lambda>(p, cmd, q). start (sendShieldCommand cmd) (ByQueue cmd q)) rs s) = settled s"
  by (induction rs arbitrary: s) (simp_all split: prod.splits)

lemma drained_runMicrotasks: "drained (runMicrotasks s)"
  by (auto simp: drained_def runMicrotasks_def Let_def fold_start_queue)

lemma runMicrotasks_drained: "drained s \<Longrightarrow> runMicrotasks s = s"
proof -
  assume d: "drained s"
  then have "filter (\<lambda>(p, cmd, q). p \<in> settled s) (reactions s) = []"
    by (auto simp: drained_def filter_empty_conv)
  moreover from d have "filter (\<lambda>(p, cmd, q). p \<notin> settled s) (reactions s) = reactions s"
    by (auto simp: drained_def filter_id_conv)
  ultimately show ?thesis by (simp add: runMicrotasks_def)
qed

lemma drained_run: "drained (run cfg evs (init t0))"
proof (rule run_invariant)
  show "drained (init t0)" by (simp add: drained_def init_def)
next
  fix e and s :: bridge
  show "drained (step cfg e s)" by (simp add: step_def drained_runMicrotasks)
qed

text \<open>
  What the \<^verbatim>\<open>close\<close> handler does in a state the bridge can reach: it clears
  \<^verbatim>\<open>currentSocket\<close> when that is the closing socket, and it empties the receive buffer.
  Every other field is as before, the flag \<^verbatim>\<open>pausedBySerialBackpressure\<close> among them.
\<close>

lemma close_effect:
  "step cfg (TcpClose sock) (run cfg evs (init t0)) =
     (run cfg evs (init t0))
       \<lparr>currentSocket := (if currentSocket (run cfg evs (init t0)) = Some sock then None
                          else currentSocket (run cfg evs (init t0))),
        tcpBuffer := []\<rparr>"
proof -
  let ?s = "run cfg evs (init t0)"
  have "drained ?s" by (rule drained_run)
  then have "drained (onClose sock ?s)" by (simp add: drained_def onClose_def)
  then show ?thesis by (simp add: step_def handle_def runMicrotasks_drained onClose_def)
qed

section \<open>HTTP helpers\<close>

lemma sendShieldCommand_Await:
  "sendShieldCommand cmd = Await (Post ''/command'' (CommandJson cmd)) (afterJson cmd)"
  by (simp add: sendShieldCommand_def httpJson_def afterJson_def fun_eq_iff)

lemma afterJson_cases:
  "afterJson cmd Rejected = Thrown"
  "afterJson cmd (Responded st body) =
     (if 200 \<le> st \<and> st \<le> 299 then Ret \<lparr>ok = True, status = st, rtext = body\<rparr>
      else Await (Post ''/command'' (PlainText cmd)) response)"
  by (auto simp: afterJson_def response_def)

section \<open>The command queue\<close>

lemma chain_snoc: "chain h R t \<Longrightarrow> chain h (R @ [(t, c, q)]) q"
  by (induction h R t rule: chain.induct) simp_all

lemma running_append [simp]: "running (F @ G) = running F @ running G"
  by (simp add: running_def)

lemma running_single [simp]: "running [(i, k, c)] = (if isQueue c then [c] else [])"
  by (simp add: running_def)

lemma dispatchedIn_append [simp]: "dispatchedIn (C @ D) = dispatchedIn C @ dispatchedIn D"
  by (simp add: dispatchedIn_def)

lemma dispatchOf_other: "\<not> isQueue c \<Longrightarrow> dispatchOf (t, r, c) = []"
  by (cases "(t, r, c)" rule: dispatchOf.cases) (simp_all add: isQueue_def)

lemma QI_enqueue:
  assumes "QI cq R S N F nf Q C"
  shows "QI N (R @ [(cq, cmd, N)]) S (Suc N) F nf (Q @ [cmd]) C"
proof -
  from assms have i: "idsOk F nf" "contsOk F" and e: "Q = dispatchedIn C @ cmdsOf R"
    and p: "promisesOk R S N" and c: "chainOk cq R S N F"
    by (simp_all add: QI_def)
  from e have e': "Q @ [cmd] = dispatchedIn C @ cmdsOf (R @ [(cq, cmd, N)])"
    by (simp add: cmdsOf_def)
  from p have p': "promisesOk (R @ [(cq, cmd, N)]) S (Suc N)"
    by (fastforce simp: promisesOk_def resultsOf_def)
  from p have fresh: "N \<notin> set (resultsOf R)" "N \<notin> S" by (auto simp: promisesOk_def)
  from c p have c': "chainOk N (R @ [(cq, cmd, N)]) S (Suc N) F"
    unfolding chainOk_def
    by (elim disjE conjE exE bexE)
       (auto simp: chain_snoc resultsOf_def promisesOk_def intro!: bexI)
  from i e' p' c' show ?thesis by (simp add: QI_def)
qed

lemma idsOk_add: "idsOk F nf \<Longrightarrow> idsOk (F @ [(nf, k, c)]) (Suc nf)"
  by (fastforce simp: idsOk_def)

lemma idsOk_remove: "idsOk (F1 @ e # F2) nf \<Longrightarrow> idsOk (F1 @ F2) nf"
  by (auto simp: idsOk_def)

lemma contsOk_add_other: "contsOk F \<Longrightarrow> \<not> isQueue c \<Longrightarrow> contsOk (F @ [(i, k, c)])"
  by (auto simp: contsOk_def isQueue_def)

lemma contsOk_add_queue:
  "contsOk F \<Longrightarrow> k = afterJson cmd \<or> k = response \<Longrightarrow> contsOk (F @ [(i, k, ByQueue cmd q)])"
  by (auto simp: contsOk_def)

lemma contsOk_remove: "contsOk (F1 @ e # F2) \<Longrightarrow> contsOk (F1 @ F2)"
  by (auto simp: contsOk_def)

lemma pending_split:
  assumes "idsOk F nf" and "find (\<lambda>(j, k, c). j = i) F = Some e"
  shows "\<exists>F1 F2 k c. e = (i, k, c) \<and> F = F1 @ (i, k, c) # F2 \<and>
           filter (\<lambda>(j, k, c). j \<noteq> i) F = F1 @ F2"
  using assms
proof (induction F)
  case Nil
  then show ?case by simp
next
  case (Cons x F)
  obtain j k c where x: "x = (j, k, c)" by (cases x)
  show ?case
  proof (cases "j = i")
    case True
    with Cons.prems x have e: "e = (i, k, c)" by simp
    from Cons.prems(1) x True have "i \<notin> fst ` set F" by (auto simp: idsOk_def)
    then have "filter (\<lambda>(j, k, c). j \<noteq> i) F = F"
      by (force simp: filter_id_conv)
    with e x True have "e = (i, k, c) \<and> x # F = [] @ (i, k, c) # F \<and>
           filter (\<lambda>(j, k, c). j \<noteq> i) (x # F) = [] @ F" by simp
    then show ?thesis by blast
  next
    case False
    from Cons.prems(1) have "idsOk F nf" by (auto simp: idsOk_def)
    moreover from Cons.prems(2) x False have "find (\<lambda>(j, k, c). j = i) F = Some e"
      by (simp add: split_def)
    ultimately obtain F1 F2 k' c' where
      "e = (i, k', c')" "F = F1 @ (i, k', c') # F2" "filter (\<lambda>(j, k, c). j \<noteq> i) F = F1 @ F2"
      using Cons.IH by blast
    with x False have "e = (i, k', c') \<and> x # F = (x # F1) @ (i, k', c') # F2 \<and>
           filter (\<lambda>(j, k, c). j \<noteq> i) (x # F) = (x # F1) @ F2" by simp
    then show ?thesis by blast
  qed
qed

lemma QI_start_other:
  assumes "QI cq R S N F nf Q C" and "\<not> isQueue c"
  shows "QI cq R S N (F @ [(nf, k, c)]) (Suc nf) Q (C @ [(t, req, c)])"
  using assms
  by (simp add: QI_def idsOk_add contsOk_add_other dispatchOf_other dispatchedIn_def chainOk_def)

lemma chainOk_running: "running F = running G \<Longrightarrow> chainOk cq R S N F = chainOk cq R S N G"
  by (simp add: chainOk_def)

lemma QI_remove_other:
  assumes "QI cq R S N (F1 @ (i, k, c) # F2) nf Q C" and "\<not> isQueue c"
  shows "QI cq R S N (F1 @ F2) nf Q C"
proof -
  from assms(2) have "running (F1 @ (i, k, c) # F2) = running (F1 @ F2)"
    by (simp add: running_def)
  from chainOk_running [OF this] assms(1) have "chainOk cq R S N (F1 @ F2)"
    by (simp add: QI_def)
  moreover from assms(1) have "idsOk (F1 @ F2) nf" "contsOk (F1 @ F2)"
    by (auto simp: QI_def dest: idsOk_remove contsOk_remove)
  ultimately show ?thesis using assms(1) by (simp add: QI_def)
qed

lemma running_queue_entry:
  assumes "chainOk cq R S N (F1 @ (i, k, ByQueue cmd q) # F2)"
  shows "running F1 = [] \<and> running F2 = [] \<and> q \<notin> S \<and> q < N \<and> q \<notin> set (resultsOf R) \<and>
         chain q R cq"
proof -
  have r: "running (F1 @ (i, k, ByQueue cmd q) # F2) = running F1 @ ByQueue cmd q # running F2"
    by (simp add: running_def isQueue_def)
  from assms show ?thesis unfolding chainOk_def r
    by (auto simp: append_eq_Cons_conv Cons_eq_append_conv)
qed

lemma QI_queue_fallback:
  assumes "QI cq R S N (F1 @ (i, k, ByQueue cmd q) # F2) nf Q C"
  shows "QI cq R S N ((F1 @ F2) @ [(nf, response, ByQueue cmd q)]) (Suc nf) Q
           (C @ [(t, Post url (PlainText cmd), ByQueue cmd q)])"
proof -
  from assms have c: "chainOk cq R S N (F1 @ (i, k, ByQueue cmd q) # F2)" by (simp add: QI_def)
  note r = running_queue_entry [OF c]
  from r have "chainOk cq R S N ((F1 @ F2) @ [(nf, response, ByQueue cmd q)])"
    by (simp add: chainOk_def isQueue_def)
  moreover from assms have io: "idsOk (F1 @ F2) nf" and co: "contsOk (F1 @ F2)"
    by (auto simp: QI_def dest: idsOk_remove contsOk_remove)
  from io have "idsOk ((F1 @ F2) @ [(nf, response, ByQueue cmd q)]) (Suc nf)"
    by (rule idsOk_add)
  moreover from co have "contsOk ((F1 @ F2) @ [(nf, response, ByQueue cmd q)])"
    by (rule contsOk_add_queue) simp
  ultimately show ?thesis using assms by (simp add: QI_def dispatchedIn_def)
qed

lemma QI_queue_done:
  assumes "QI cq R S N (F1 @ (i, k, ByQueue cmd q) # F2) nf Q C"
  shows "QI cq R (insert q S) N (F1 @ F2) nf Q C"
proof -
  from assms have c: "chainOk cq R S N (F1 @ (i, k, ByQueue cmd q) # F2)"
    and p: "promisesOk R S N" by (simp_all add: QI_def)
  note r = running_queue_entry [OF c]
  from r have "chainOk cq R (insert q S) N (F1 @ F2)" by (auto simp: chainOk_def)
  moreover from p r have "promisesOk R (insert q S) N" by (auto simp: promisesOk_def)
  moreover from assms have "idsOk (F1 @ F2) nf" "contsOk (F1 @ F2)"
    by (auto simp: QI_def dest: idsOk_remove contsOk_remove)
  ultimately show ?thesis using assms by (simp add: QI_def)
qed

lemma chain_waiting:
  "chain h R t \<Longrightarrow> h \<notin> S \<Longrightarrow> \<forall>q \<in> set (resultsOf R). q \<notin> S \<Longrightarrow>
     filter (\<lambda>(p, c, q). p \<in> S) R = [] \<and> filter (\<lambda>(p, c, q). p \<notin> S) R = R"
  by (induction h R t rule: chain.induct) (simp_all add: resultsOf_def)

lemma QI_ready:
  assumes "QI cq R S N F nf Q C"
  shows "filter (\<lambda>(p, c, q). p \<in> S) R = (if running F = [] then take 1 R else [])"
    and "filter (\<lambda>(p, c, q). p \<notin> S) R = (if running F = [] then drop 1 R else R)"
proof -
  from assms have c: "chainOk cq R S N F" and p: "\<forall>q \<in> set (resultsOf R). q \<notin> S"
    by (simp_all add: QI_def promisesOk_def)
  have "filter (\<lambda>(p, c, q). p \<in> S) R = (if running F = [] then take 1 R else []) \<and>
        filter (\<lambda>(p, c, q). p \<notin> S) R = (if running F = [] then drop 1 R else R)"
  proof (cases "running F = []")
    case True
    with c obtain h where h: "h \<in> S" "chain h R cq" by (auto simp: chainOk_def)
    show ?thesis
    proof (cases R)
      case Nil
      then show ?thesis by simp
    next
      case (Cons x R')
      obtain p0 c0 q0 where x: "x = (p0, c0, q0)" by (cases x)
      from h Cons x have "p0 = h" "chain q0 R' cq" by simp_all
      moreover from p Cons x have "q0 \<notin> S" "\<forall>q \<in> set (resultsOf R'). q \<notin> S"
        by (simp_all add: resultsOf_def)
      ultimately show ?thesis using chain_waiting [of q0 R' cq S] h True Cons x by simp
    qed
  next
    case False
    with c obtain cmd q where "q \<notin> S" "chain q R cq" by (auto simp: chainOk_def)
    with chain_waiting [of q R cq S] p False show ?thesis by simp
  qed
  then show "filter (\<lambda>(p, c, q). p \<in> S) R = (if running F = [] then take 1 R else [])"
    and "filter (\<lambda>(p, c, q). p \<notin> S) R = (if running F = [] then drop 1 R else R)"
    by simp_all
qed

lemma QI_dispatch:
  assumes "QI cq ((h, c1, q1) # R) S N F nf Q C" and "running F = []"
  shows "QI cq R S N (F @ [(nf, afterJson c1, ByQueue c1 q1)]) (Suc nf) Q
           (C @ [(t, Post url (CommandJson c1), ByQueue c1 q1)])"
proof -
  from assms have c: "chainOk cq ((h, c1, q1) # R) S N F"
    and p: "promisesOk ((h, c1, q1) # R) S N" by (simp_all add: QI_def)
  from c assms(2) have ch: "chain q1 R cq" by (auto simp: chainOk_def)
  from p have q1: "q1 \<notin> S" "q1 < N" "q1 \<notin> set (resultsOf R)" and p': "promisesOk R S N"
    by (auto simp: promisesOk_def resultsOf_def)
  from ch q1 assms(2) have "chainOk cq R S N (F @ [(nf, afterJson c1, ByQueue c1 q1)])"
    by (simp add: chainOk_def isQueue_def)
  moreover from assms(1) have "idsOk (F @ [(nf, afterJson c1, ByQueue c1 q1)]) (Suc nf)"
    "contsOk (F @ [(nf, afterJson c1, ByQueue c1 q1)])"
    by (auto simp: QI_def intro: idsOk_add contsOk_add_queue)
  moreover from assms(1) have "Q = dispatchedIn (C @ [(t, Post url (CommandJson c1), ByQueue c1 q1)]) @ cmdsOf R"
    by (simp add: QI_def dispatchedIn_def cmdsOf_def)
  ultimately show ?thesis using p' by (simp add: QI_def)
qed

lemma queueInv_view: "queueView a = queueView b \<Longrightarrow> queueInv a = queueInv b"
  by (simp add: queueView_def queueInv_def)

lemma queueViewD:
  assumes "queueView a = queueView b"
  shows "inflight a = inflight b" "calls a = calls b" "queued a = queued b"
    "reactions a = reactions b"
  using assms by (simp_all add: queueView_def)

lemma queueView_writeToSerial [simp]: "queueView (writeToSerial f s) = queueView s"
  by (simp add: queueView_def writeToSerial_def Let_def split: option.splits list.splits)

lemma queueView_pass [simp]: "queueView (processTcpBuffer s) = queueView s"
proof (induction s rule: pass_induct)
  case (short s) then show ?case by (simp add: pass_short)
next
  case (flush s) then show ?case by (simp add: pass_flush queueView_def)
next
  case (skip s) then show ?case by (simp add: pass_skip queueView_def)
next
  case (bad s) then show ?case by (simp add: pass_bad queueView_def countBad_def)
next
  case (good s)
  have "queueView ((writeToSerial (take 33 (tcpBuffer s)) (countOk s))\<lparr>tcpBuffer := drop 33 (tcpBuffer s)\<rparr>)
          = queueView (writeToSerial (take 33 (tcpBuffer s)) (countOk s))"
    by (simp add: queueView_def)
  also have "\<dots> = queueView s" by (simp, simp add: queueView_def countOk_def)
  finally show ?case using good by (simp add: pass_good)
qed

lemma queueView_data: "dataEvent e \<Longrightarrow> queueView (handle cfg e s) = queueView s"
proof (cases e)
  case (TcpData sk chunk)
  then show ?thesis by (simp add: handle_def onData_def) (simp add: queueView_def)
qed (simp_all add: dataEvent_def handle_def onDrain_def onConnection_def onClose_def queueView_def
      split: option.splits)

lemma queueInv_init: "queueInv (init t0)"
  by (simp add: queueInv_def init_def QI_def idsOk_def contsOk_def promisesOk_def chainOk_def
        running_def dispatchedIn_def cmdsOf_def resultsOf_def)

lemma queueInv_queueCmd: "queueInv s \<Longrightarrow> queueInv (queueCmd cmd s)"
  by (simp add: queueInv_def queueCmd_def QI_enqueue)

lemma queueInv_cmdBuf [simp]: "queueInv (s\<lparr>cmdBuf := x\<rparr>) = queueInv s"
  by (simp add: queueInv_def)

lemma queueInv_feedByte: "queueInv s \<Longrightarrow> queueInv (feedByte b s)"
  by (simp add: feedByte_def Let_def queueInv_queueCmd)

lemma queueInv_fold:
  assumes "\<And>x s. queueInv s \<Longrightarrow> queueInv (f x s)"
  shows "queueInv s \<Longrightarrow> queueInv (fold f xs s)"
  by (induction xs arbitrary: s) (simp_all add: assms)

lemma queueInv_setTimeout [simp]: "queueInv (setTimeout cb ms s) = queueInv s"
  by (simp add: queueInv_def setTimeout_def)

lemma queueInv_onSerialData: "queueInv s \<Longrightarrow> queueInv (onSerialData buf s)"
proof -
  assume a: "queueInv s"
  then have "queueInv (s\<lparr>stats := (stats s)\<lparr>lastBioAt := now s\<rparr>\<rparr>)" by (simp add: queueInv_def)
  then have "queueInv (feedCmdBytes buf s)"
    unfolding feedCmdBytes_def by (rule queueInv_fold [rotated]) (rule queueInv_feedByte)
  then show ?thesis unfolding onSerialData_def
    by (rule queueInv_fold [rotated]) (simp add: trigger_def Let_def)
qed

lemma queueInv_start_other: "\<not> isQueue c \<Longrightarrow> queueInv s \<Longrightarrow> queueInv (start p c s)"
  by (cases p) (simp_all add: start_def queueInv_def QI_start_other)

lemma queueInv_stats [simp]: "queueInv (s\<lparr>stats := x\<rparr>) = queueInv s"
  by (simp add: queueInv_def)

lemma queueInv_fireTimer: "queueInv s \<Longrightarrow> queueInv (fireTimer cb s)"
proof -
  have n: "\<not> isQueue ByStartStop" "\<not> isQueue ByLoneStop" "\<not> isQueue ByStreamStart"
    by (simp_all add: isQueue_def)
  have ss: "\<And>s. queueInv s \<Longrightarrow> queueInv (startServer s)"
    by (simp add: startServer_def queueInv_def)
  assume "queueInv s"
  then show ?thesis
    by (cases cb) (simp_all add: fireTimer_def startStream_def stopStream_def
          queueInv_start_other n ss)
qed

lemma queueInv_channelLoop: "queueInv s \<Longrightarrow> queueInv (channelLoop cfg k s)"
  by (simp add: channelLoop_def queueInv_start_other isQueue_def)

lemma queueInv_returned_other:
  "\<not> isQueue c \<Longrightarrow> queueInv s \<Longrightarrow> queueInv (returned cfg c r s)"
  by (cases "(cfg, c, r, s)" rule: returned.cases)
     (simp_all add: isQueue_def queueInv_channelLoop queueInv_start_other)

lemma queueInv_resume_other:
  "\<not> isQueue c \<Longrightarrow> queueInv s \<Longrightarrow> queueInv (resume cfg p c s)"
  by (cases p) (simp_all add: resume_def queueInv_returned_other queueInv_start_other)

lemma afterJson_ends:
  "afterJson cmd out = Thrown \<or> (\<exists>r. afterJson cmd out = Ret r) \<or>
   afterJson cmd out = Await (Post ''/command'' (PlainText cmd)) response"
  by (cases out) (simp_all add: afterJson_cases)

lemma response_ends: "response out = Thrown \<or> (\<exists>r. response out = Ret r)"
  by (cases out) (simp_all add: response_def)

lemma queueInv_settle_queue:
  assumes inv: "queueInv s" and F: "inflight s = F1 @ (i, k, ByQueue cmd q) # F2"
  shows "queueInv (resume cfg (k out) (ByQueue cmd q) (s\<lparr>inflight := F1 @ F2\<rparr>))"
proof -
  from inv F have qi: "QI (cmdQ s) (reactions s) (settled s) (nextPromise s)
      (F1 @ (i, k, ByQueue cmd q) # F2) (nextFetch s) (queued s) (calls s)"
    by (simp add: queueInv_def)
  then have "contsOk (F1 @ (i, k, ByQueue cmd q) # F2)" by (simp add: QI_def)
  then have k: "k = afterJson cmd \<or> k = response" by (auto simp: contsOk_def)
  have fin: "queueInv (s\<lparr>inflight := F1 @ F2, cmdQueueDepth := d,
      settled := insert q (settled s)\<rparr>)" for d
    using QI_queue_done [OF qi] by (simp add: queueInv_def)
  have fallback: "queueInv (start (Await (Post ''/command'' (PlainText cmd)) response) (ByQueue cmd q)
      (s\<lparr>inflight := F1 @ F2\<rparr>))"
    using QI_queue_fallback [OF qi] by (simp add: queueInv_def start_def)
  from k afterJson_ends [of cmd out] response_ends [of out] show ?thesis
    by (auto simp: resume_def fin fallback)
qed

lemma queueInv_handle: "queueInv s \<Longrightarrow> queueInv (handle cfg e s)"
proof -
  assume inv: "queueInv s"
  show ?thesis
  proof (cases e)
    case (SerialData buf)
    with inv show ?thesis by (simp add: handle_def queueInv_onSerialData)
  next
    case Listening
    have "queueInv (s\<lparr>listenPending := False\<rparr>)" using inv by (simp add: queueInv_def)
    then have "queueInv (start (httpJson ''/tcp'' (TcpConfig True)) ByTcp (s\<lparr>listenPending := False\<rparr>))"
      by (rule queueInv_start_other [rotated]) (simp add: isQueue_def)
    with inv Listening show ?thesis by (simp add: handle_def)
  next
    case (Tick d)
    with inv show ?thesis by (simp add: handle_def queueInv_def)
  next
    case (TimerFire n)
    have "queueInv (s\<lparr>timers := x\<rparr>)" for x using inv by (simp add: queueInv_def)
    with inv TimerFire show ?thesis by (simp add: handle_def queueInv_fireTimer)
  next
    case (FetchSettle i out)
    show ?thesis
    proof (cases "find (\<lambda>(j, k, c). j = i) (inflight s)")
      case None
      with inv FetchSettle show ?thesis by (simp add: handle_def)
    next
      case (Some e')
      from inv have "idsOk (inflight s) (nextFetch s)" by (simp add: queueInv_def QI_def)
      from pending_split [OF this Some] obtain F1 F2 k c where
        e': "e' = (i, k, c)" and F: "inflight s = F1 @ (i, k, c) # F2"
        and fl: "filter (\<lambda>(j, k, c). j \<noteq> i) (inflight s) = F1 @ F2" by blast
      have h: "handle cfg e s = resume cfg (k out) c (s\<lparr>inflight := F1 @ F2\<rparr>)"
        using FetchSettle Some e' fl by (simp add: handle_def)
      show ?thesis
      proof (cases "isQueue c")
        case True
        then obtain cmd q where c: "c = ByQueue cmd q" by (cases c) (simp_all add: isQueue_def)
        from queueInv_settle_queue [OF inv F [unfolded c]] show ?thesis unfolding h c .
      next
        case False
        from inv F have "QI (cmdQ s) (reactions s) (settled s) (nextPromise s)
            (F1 @ (i, k, c) # F2) (nextFetch s) (queued s) (calls s)"
          by (simp add: queueInv_def)
        from QI_remove_other [OF this False] have "queueInv (s\<lparr>inflight := F1 @ F2\<rparr>)"
          by (simp add: queueInv_def)
        from queueInv_resume_other [OF False this] show ?thesis unfolding h .
      qed
    qed
  qed (use inv queueInv_view [OF queueView_data] in \<open>simp_all add: dataEvent_def\<close>)
qed

lemma fold_one: "fold f [x] s = f x s"
  by simp

lemma runMicrotasks_cases:
  assumes "queueInv s"
  shows "runMicrotasks s =
    (if queueRunning s = [] then
       (case reactions s of
          [] \<Rightarrow> s
        | (h, c1, q1) # R \<Rightarrow> start (sendShieldCommand c1) (ByQueue c1 q1) (s\<lparr>reactions := R\<rparr>))
     else s)"
proof -
  from assms have qi: "QI (cmdQ s) (reactions s) (settled s) (nextPromise s)
      (inflight s) (nextFetch s) (queued s) (calls s)" by (simp add: queueInv_def)
  note r = QI_ready [OF qi]
  show ?thesis
  proof (cases "queueRunning s = []")
    case False
    then show ?thesis unfolding runMicrotasks_def Let_def r
      by (simp add: queueRunning_def)
  next
    case True
    show ?thesis
    proof (cases "reactions s")
      case Nil
      with True show ?thesis unfolding runMicrotasks_def Let_def r
        by (simp add: queueRunning_def)
    next
      case (Cons x R)
      obtain h c1 q1 where "x = (h, c1, q1)" by (cases x)
      with True Cons show ?thesis unfolding runMicrotasks_def Let_def r
        by (simp add: queueRunning_def)
    qed
  qed
qed

lemma queueInv_runMicrotasks:
  assumes "queueInv s"
  shows "queueInv (runMicrotasks s) \<and> idle (runMicrotasks s)"
proof (cases "queueRunning s = []")
  case False
  with assms show ?thesis by (simp add: runMicrotasks_cases idle_def)
next
  case True
  show ?thesis
  proof (cases "reactions s")
    case Nil
    with assms True show ?thesis by (simp add: runMicrotasks_cases idle_def)
  next
    case (Cons x R)
    obtain h c1 q1 where x: "x = (h, c1, q1)" by (cases x)
    from assms Cons x have "QI (cmdQ s) ((h, c1, q1) # R) (settled s) (nextPromise s)
      (inflight s) (nextFetch s) (queued s) (calls s)" by (simp add: queueInv_def)
    from QI_dispatch [OF this] True
    have "queueInv (start (sendShieldCommand c1) (ByQueue c1 q1) (s\<lparr>reactions := R\<rparr>))"
      by (simp add: queueInv_def start_def sendShieldCommand_Await queueRunning_def)
    moreover have "idle (start (sendShieldCommand c1) (ByQueue c1 q1) (s\<lparr>reactions := R\<rparr>))"
      by (simp add: idle_def queueRunning_def start_def sendShieldCommand_Await isQueue_def)
    ultimately show ?thesis using assms True Cons x by (simp add: runMicrotasks_cases)
  qed
qed

lemma queue_invariant:
  "queueInv (run cfg evs (init t0)) \<and> idle (run cfg evs (init t0))"
proof (rule run_invariant)
  show "queueInv (init t0) \<and> idle (init t0)"
    by (simp add: queueInv_init) (simp add: idle_def init_def)
next
  fix e and s :: bridge
  assume "queueInv s \<and> idle s"
  then have "queueInv (handle cfg e s)" by (simp add: queueInv_handle)
  then show "queueInv (step cfg e s) \<and> idle (step cfg e s)"
    unfolding step_def by (rule queueInv_runMicrotasks)
qed

lemma queueInv_facts:
  assumes "queueInv s" and "idle s"
  shows "length (queueRunning s) \<le> 1" and "prefix (dispatched s) (queued s)"
    and "queueRunning s = [] \<longrightarrow> dispatched s = queued s"
proof -
  from assms(1) have c: "chainOk (cmdQ s) (reactions s) (settled s) (nextPromise s) (inflight s)"
    and e: "queued s = dispatchedIn (calls s) @ cmdsOf (reactions s)"
    by (simp_all add: queueInv_def QI_def)
  from c show "length (queueRunning s) \<le> 1" by (auto simp: chainOk_def queueRunning_def)
  from e show "prefix (dispatched s) (queued s)" by (simp add: dispatched_def)
  from e assms(2) show "queueRunning s = [] \<longrightarrow> dispatched s = queued s"
    by (auto simp: idle_def dispatched_def cmdsOf_def)
qed

lemma dispatch_ends:
  assumes inv: "queueInv s" and idle: "idle s"
    and f: "find (\<lambda>(j, k, c). j = i) (inflight s) = Some (i, k, ByQueue cmd q)"
    and e: "k out = Thrown \<or> (\<exists>r. k out = Ret r)"
  shows "dispatched (step cfg (FetchSettle i out) s) = take (Suc (length (dispatched s))) (queued s)"
    and "queued (step cfg (FetchSettle i out) s) = queued s"
proof -
  from inv have io: "idsOk (inflight s) (nextFetch s)" by (simp add: queueInv_def QI_def)
  from pending_split [OF io f] obtain F1 F2 where
    F: "inflight s = F1 @ (i, k, ByQueue cmd q) # F2"
    and fl: "filter (\<lambda>(j, k, c). j \<noteq> i) (inflight s) = F1 @ F2" by auto
  define s2 where "s2 = s\<lparr>inflight := F1 @ F2, cmdQueueDepth := max 0 (cmdQueueDepth s - 1),
      settled := insert q (settled s)\<rparr>"
  from e f fl have h: "handle cfg (FetchSettle i out) s = s2"
    by (auto simp: handle_def resume_def s2_def)
  from queueInv_handle [OF inv, of cfg "FetchSettle i out"] have inv2: "queueInv s2"
    unfolding h .
  from inv F have "chainOk (cmdQ s) (reactions s) (settled s) (nextPromise s)
      (F1 @ (i, k, ByQueue cmd q) # F2)" by (simp add: queueInv_def QI_def)
  from running_queue_entry [OF this] have r2: "queueRunning s2 = []"
    by (simp add: queueRunning_def s2_def)
  from inv have enq: "queued s = dispatched s @ cmdsOf (reactions s)"
    by (simp add: queueInv_def QI_def dispatched_def)
  have same: "reactions s2 = reactions s" "calls s2 = calls s" "queued s2 = queued s"
    by (simp_all add: s2_def)
  have "dispatched (runMicrotasks s2) = take (Suc (length (dispatched s))) (queued s) \<and>
        queued (runMicrotasks s2) = queued s"
  proof (cases "reactions s")
    case Nil
    with inv2 r2 same enq show ?thesis
      by (simp add: runMicrotasks_cases dispatched_def cmdsOf_def)
  next
    case (Cons x R)
    obtain h' c1 q1 where "x = (h', c1, q1)" by (cases x)
    with Cons inv2 r2 same enq show ?thesis
      by (simp add: runMicrotasks_cases dispatched_def cmdsOf_def start_def
            sendShieldCommand_Await dispatchedIn_def)
  qed
  then show "dispatched (step cfg (FetchSettle i out) s) = take (Suc (length (dispatched s))) (queued s)"
    and "queued (step cfg (FetchSettle i out) s) = queued s"
    by (simp_all add: step_def h)
qed

section \<open>The stream lifecycle\<close>

lemma lifeTimers_simps [simp]:
  "lifeTimers [] = []"
  "lifeTimers (A @ B) = lifeTimers A @ lifeTimers B"
  "lifeTimers ((d, cb) # B) = (if cb = TriggerS then lifeTimers B else (d, cb) # lifeTimers B)"
  by (simp_all add: lifeTimers_def)

lemma seqFlight_simps [simp]:
  "seqFlight [] = []"
  "seqFlight (F @ G) = seqFlight F @ seqFlight G"
  "seqFlight ((i, k, c) # G) = (if isSeq c then c # seqFlight G else seqFlight G)"
  by (simp_all add: seqFlight_def)

lemma seqCalls_simps [simp]:
  "seqCalls [] = []"
  "seqCalls (C @ D) = seqCalls C @ seqCalls D"
  "seqCalls ((t, r, c) # D) = (if isSeq c then (t, r, c) # seqCalls D else seqCalls D)"
  by (simp_all add: seqCalls_def)

lemma isSeq_simps [simp]:
  "isSeq ByStartStop" "isSeq ByInit" "isSeq (ByChannel k)" "isSeq ByStreamStart"
  "\<not> isSeq (ByQueue cmd q)" "\<not> isSeq ByLoneStop" "\<not> isSeq ByTcp" "\<not> isSeq ByTcpRetry"
  by (simp_all add: isSeq_def)

lemma isQueue_simps [simp]:
  "isQueue (ByQueue cmd q)" "\<not> isQueue ByStartStop" "\<not> isQueue ByInit" "\<not> isQueue (ByChannel k)"
  "\<not> isQueue ByStreamStart" "\<not> isQueue ByLoneStop" "\<not> isQueue ByTcp" "\<not> isQueue ByTcpRetry"
  by (simp_all add: isQueue_def)

lemma contsPlain_add: "contsPlain F \<Longrightarrow> isQueue c \<or> k = response \<Longrightarrow> contsPlain (F @ [(i, k, c)])"
  by (auto simp: contsPlain_def)

lemma contsPlain_remove: "contsPlain (F1 @ e # F2) \<Longrightarrow> contsPlain (F1 @ F2)"
  by (auto simp: contsPlain_def)

lemma contsPlain_entry: "contsPlain (F1 @ (i, k, c) # F2) \<Longrightarrow> \<not> isQueue c \<Longrightarrow> k = response"
  by (auto simp: contsPlain_def)

lemma startsBySeq_add:
  "startsBySeq C \<Longrightarrow> isSeq c \<or> r \<noteq> Get ''/stream/start'' \<Longrightarrow> startsBySeq (C @ [(t, r, c)])"
  by (auto simp: startsBySeq_def)

lemma LI_tick: "LI n T F C a t \<Longrightarrow> LI n T F C a (t + d)"
  by (auto simp: LI_def phase_def)

lemma LI_timerS: "LI n T F C a t \<Longrightarrow> LI n (T @ [(d, TriggerS)]) F C a t"
  by (simp add: LI_def)

lemma LI_timerB: "LI 0 T F C a t \<Longrightarrow> LI (Suc 0) (T @ [(d, TriggerB)]) F C a t"
  by (simp add: LI_def phase_def)

lemma LI_start_other:
  assumes "LI n T F C a t" and "\<not> isSeq c" and "isQueue c \<or> k = response"
    and "r \<noteq> Get ''/stream/start''"
  shows "LI n T (F @ [(i, k, c)]) (C @ [(u, r, c)]) a t"
  using assms by (simp add: LI_def contsPlain_add startsBySeq_add)

lemma LI_remove_other:
  assumes "LI n T (F1 @ (i, k, c) # F2) C a t" and "\<not> isSeq c"
  shows "LI n T (F1 @ F2) C a t"
  using assms by (auto simp: LI_def dest: contsPlain_remove)

lemma LI_fireS:
  assumes "LI n (A @ (d, TriggerS) # B) F C a t"
  shows "LI n (A @ B) (F @ [(i, response, ByLoneStop)]) (C @ [(u, Get ''/stream/stop'', ByLoneStop)]) a t"
  using assms by (simp add: LI_def contsPlain_add startsBySeq_add)

lemma LI_fireB:
  assumes "LI n (A @ (d, TriggerB) # B) F C a t"
  shows "LI n (A @ B) (F @ [(i, response, ByStartStop)]) (C @ [(t, Get ''/stream/stop'', ByStartStop)]) t t"
proof -
  from assms have c: "contsPlain F" "startsBySeq C"
    and p: "phase n (lifeTimers A @ (d, TriggerB) # lifeTimers B) (seqFlight F) (seqCalls C) a t"
    by (simp_all add: LI_def)
  from p have "n = 1 \<and> lifeTimers A = [] \<and> lifeTimers B = [] \<and> seqFlight F = [] \<and> seqCalls C = []"
    unfolding phase_def by (auto simp: append_eq_Cons_conv Cons_eq_append_conv)
  then have "phase n (lifeTimers (A @ B)) (seqFlight (F @ [(i, response, ByStartStop)]))
      (seqCalls (C @ [(t, Get ''/stream/stop'', ByStartStop)])) t t"
    by (simp add: phase_def)
  with c show ?thesis by (simp add: LI_def contsPlain_add startsBySeq_add del: lifeTimers_simps seqFlight_simps seqCalls_simps)
qed

lemma LI_fireSettle:
  assumes "LI n (A @ (d, SettleStart) # B) F C a t" and "d \<le> t"
  shows "LI n (A @ B) (F @ [(i, response, ByStreamStart)])
           (C @ [(t, Get ''/stream/start'', ByStreamStart)]) a t"
proof -
  from assms have c: "contsPlain F" "startsBySeq C"
    and p: "phase n (lifeTimers A @ (d, SettleStart) # lifeTimers B) (seqFlight F) (seqCalls C) a t"
    by (simp_all add: LI_def)
  from p have "n = 1 \<and> lifeTimers A = [] \<and> lifeTimers B = [] \<and> seqFlight F = [] \<and>
      seqCalls C = [(a, Get ''/stream/stop'', ByStartStop)] \<and> a + 1000 \<le> d"
    unfolding phase_def by (auto simp: append_eq_Cons_conv Cons_eq_append_conv)
  with assms(2) have "phase n (lifeTimers (A @ B)) (seqFlight (F @ [(i, response, ByStreamStart)]))
      (seqCalls (C @ [(t, Get ''/stream/start'', ByStreamStart)])) a t"
    by (simp add: phase_def)
  with c show ?thesis by (simp add: LI_def contsPlain_add startsBySeq_add del: lifeTimers_simps seqFlight_simps seqCalls_simps)
qed

lemma LI_stop_answered:
  assumes "LI n T (F1 @ (i, k, ByStartStop) # F2) C a t"
  shows "LI n (T @ [(t + 1000, SettleStart)]) (F1 @ F2) C a t"
proof -
  from assms have c: "contsPlain (F1 @ F2)" "startsBySeq C"
    and p: "phase n (lifeTimers T) (seqFlight F1 @ ByStartStop # seqFlight F2) (seqCalls C) a t"
    by (auto simp: LI_def dest: contsPlain_remove)
  from p have "n = 1 \<and> lifeTimers T = [] \<and> seqFlight F1 = [] \<and> seqFlight F2 = [] \<and>
      seqCalls C = [(a, Get ''/stream/stop'', ByStartStop)] \<and> a \<le> t"
    unfolding phase_def by (auto simp: append_eq_Cons_conv Cons_eq_append_conv)
  then have "phase n (lifeTimers (T @ [(t + 1000, SettleStart)])) (seqFlight (F1 @ F2)) (seqCalls C) a t"
    by (simp add: phase_def)
  with c show ?thesis by (simp add: LI_def del: lifeTimers_simps seqFlight_simps seqCalls_simps)
qed

lemma LI_start_settled:
  assumes "LI n T (F1 @ (i, k, ByStreamStart) # F2) C a t"
  shows "LI n T (F1 @ F2) C a t"
proof -
  from assms have c: "contsPlain (F1 @ F2)" "startsBySeq C"
    and p: "phase n (lifeTimers T) (seqFlight F1 @ ByStreamStart # seqFlight F2) (seqCalls C) a t"
    by (auto simp: LI_def dest: contsPlain_remove)
  from p have "phase n (lifeTimers T) (seqFlight F1 @ seqFlight F2) (seqCalls C) a t"
    unfolding phase_def by (auto simp: append_eq_Cons_conv Cons_eq_append_conv)
  with c show ?thesis by (simp add: LI_def)
qed

lemma LI_no_init:
  assumes "LI n T (F1 @ (i, k, c) # F2) C a t" and "c = ByInit \<or> (\<exists>j. c = ByChannel j)"
  shows False
  using assms unfolding LI_def phase_def
  by (auto simp: append_eq_Cons_conv Cons_eq_append_conv)

lemma lifeInv_view: "lifeView a = lifeView b \<Longrightarrow> lifeInv n a = lifeInv n b"
  by (simp add: lifeView_def lifeInv_def)

lemma lifeView_writeToSerial [simp]: "lifeView (writeToSerial f s) = lifeView s"
  by (simp add: lifeView_def writeToSerial_def Let_def split: option.splits list.splits)

lemma lifeView_pass [simp]: "lifeView (processTcpBuffer s) = lifeView s"
proof (induction s rule: pass_induct)
  case (short s) then show ?case by (simp add: pass_short)
next
  case (flush s) then show ?case by (simp add: pass_flush lifeView_def)
next
  case (skip s) then show ?case by (simp add: pass_skip lifeView_def)
next
  case (bad s) then show ?case by (simp add: pass_bad lifeView_def countBad_def)
next
  case (good s)
  have "lifeView ((writeToSerial (take 33 (tcpBuffer s)) (countOk s))\<lparr>tcpBuffer := drop 33 (tcpBuffer s)\<rparr>)
          = lifeView (writeToSerial (take 33 (tcpBuffer s)) (countOk s))"
    by (simp add: lifeView_def)
  also have "\<dots> = lifeView s" by (simp, simp add: lifeView_def countOk_def)
  finally show ?case using good by (simp add: pass_good)
qed

lemma lifeView_data: "dataEvent e \<Longrightarrow> lifeView (handle cfg e s) = lifeView s"
proof (cases e)
  case (TcpData sk chunk)
  then show ?thesis by (simp add: handle_def onData_def) (simp add: lifeView_def)
qed (simp_all add: dataEvent_def handle_def onDrain_def onConnection_def onClose_def lifeView_def
      split: option.splits)

lemma lifeView_queueCmd [simp]: "lifeView (queueCmd cmd s) = lifeView s"
  by (simp add: lifeView_def queueCmd_def)

lemma lifeView_feedByte [simp]: "lifeView (feedByte b s) = lifeView s"
  by (simp add: feedByte_def Let_def) (simp add: lifeView_def)

lemma lifeView_fold:
  assumes "\<And>x s. lifeView (f x s) = lifeView s"
  shows "lifeView (fold f xs s) = lifeView s"
  by (induction xs arbitrary: s) (simp_all add: assms)

lemma lifeView_feedCmdBytes [simp]: "lifeView (feedCmdBytes buf s) = lifeView s"
  by (simp add: feedCmdBytes_def lifeView_fold) (simp add: lifeView_def)

lemma lifeInv_init: "lifeInv 0 (init t0)"
  by (simp add: lifeInv_def init_def LI_def phase_def contsPlain_def startsBySeq_def)

lemma lifeInv_trigger:
  assumes "lifeInv n s" and "n + (if b = 0x62 then 1 else 0) \<le> 1"
  shows "lifeInv (n + (if b = 0x62 then 1 else 0)) (trigger b s)"
proof (cases "b = 0x62")
  case True
  with assms have "n = 0" by simp
  with assms(1) True show ?thesis
    by (simp add: trigger_def lifeInv_def setTimeout_def LI_timerB)
next
  case False
  with assms(1) show ?thesis
    by (simp add: trigger_def lifeInv_def setTimeout_def LI_timerS)
qed

lemma lifeInv_triggers:
  "lifeInv n s \<Longrightarrow> n + count_list buf 0x62 \<le> 1 \<Longrightarrow>
     lifeInv (n + count_list buf 0x62) (fold trigger buf s)"
proof (induction buf arbitrary: n s)
  case Nil
  then show ?case by simp
next
  case (Cons b buf)
  from Cons.prems have le: "n + (if b = 0x62 then 1 else 0) \<le> 1" by (simp split: if_splits)
  from lifeInv_trigger [OF Cons.prems(1) le]
  have 1: "lifeInv (n + (if b = 0x62 then 1 else 0)) (trigger b s)" .
  from Cons.prems(2) have "n + (if b = 0x62 then 1 else 0) + count_list buf 0x62 \<le> 1"
    by (simp split: if_splits)
  from Cons.IH [OF 1 this] show ?case by (simp add: add.assoc split: if_splits)
qed

lemma lifeInv_onSerialData:
  assumes "lifeInv n s" and "n + count_list buf 0x62 \<le> 1"
  shows "lifeInv (n + count_list buf 0x62) (onSerialData buf s)"
proof -
  from assms(1) have "lifeInv n (feedCmdBytes buf s)"
    by (simp add: lifeInv_view [OF lifeView_feedCmdBytes])
  from lifeInv_triggers [OF this assms(2)] show ?thesis by (simp add: onSerialData_def)
qed

lemma lifeInv_start_other:
  assumes "lifeInv n s" and "\<not> isSeq c" and "isQueue c \<or> k = response"
    and "r \<noteq> Get ''/stream/start''"
  shows "lifeInv n (start (Await r k) c s)"
  using assms by (simp add: lifeInv_def start_def LI_start_other)

lemma lifeInv_fireTimer:
  assumes inv: "lifeInv n s" and i: "i < length (timers s)" and due: "fst (timers s ! i) \<le> now s"
  shows "lifeInv n (fireTimer (snd (timers s ! i))
           (s\<lparr>timers := take i (timers s) @ drop (Suc i) (timers s)\<rparr>))"
proof -
  obtain d cb where x: "timers s ! i = (d, cb)" by (cases "timers s ! i")
  from id_take_nth_drop [OF i] x
  have T: "timers s = take i (timers s) @ (d, cb) # drop (Suc i) (timers s)" by simp
  let ?A = "take i (timers s)" and ?B = "drop (Suc i) (timers s)"
  from inv T have li: "LI n (?A @ (d, cb) # ?B) (inflight s) (calls s) (lastStartAt (stats s)) (now s)"
    by (simp add: lifeInv_def)
  show ?thesis
  proof (cases cb)
    case TriggerB
    from LI_fireB [OF li [unfolded TriggerB]] x TriggerB show ?thesis
      by (simp add: fireTimer_def startStream_def stopStream_def startServer_def httpGet_def
            start_def lifeInv_def)
  next
    case TriggerS
    from LI_fireS [OF li [unfolded TriggerS]] x TriggerS show ?thesis
      by (simp add: fireTimer_def stopStream_def httpGet_def start_def lifeInv_def)
  next
    case SettleStart
    from due x have "d \<le> now s" by simp
    from LI_fireSettle [OF li [unfolded SettleStart] this] x SettleStart show ?thesis
      by (simp add: fireTimer_def httpGet_def start_def lifeInv_def)
  qed
qed

lemma lifeInv_settle:
  assumes cfg: "initCmd cfg = []" "channelCmds cfg = []"
    and inv: "lifeInv n s" and q: "contsOk (inflight s)"
    and F: "inflight s = F1 @ (i, k, c) # F2"
    and ok: "out = Rejected \<longrightarrow> caught c \<and> c \<noteq> ByStartStop"
  shows "lifeInv n (resume cfg (k out) c (s\<lparr>inflight := F1 @ F2\<rparr>))"
proof -
  from inv F have li: "LI n (timers s) (F1 @ (i, k, c) # F2) (calls s) (lastStartAt (stats s)) (now s)"
    by (simp add: lifeInv_def)
  then have cp: "contsPlain (F1 @ (i, k, c) # F2)" by (simp add: LI_def)
  have other: "\<not> isSeq c \<Longrightarrow> lifeInv n (s\<lparr>inflight := F1 @ F2\<rparr>)"
    using LI_remove_other [OF li] by (simp add: lifeInv_def)
  have plain: "\<not> isQueue c \<Longrightarrow> k = response" using contsPlain_entry [OF cp] .
  show ?thesis
  proof (cases c)
    case (ByQueue cmd q')
    from q F ByQueue have k: "k = afterJson cmd \<or> k = response" by (auto simp: contsOk_def)
    from other ByQueue have o: "lifeInv n (s\<lparr>inflight := F1 @ F2\<rparr>)" by simp
    then have fin: "lifeInv n (s\<lparr>inflight := F1 @ F2, cmdQueueDepth := d, settled := S\<rparr>)" for d S
      by (simp add: lifeInv_def)
    have fb: "lifeInv n (start (Await (Post ''/command'' (PlainText cmd)) response) (ByQueue cmd q')
        (s\<lparr>inflight := F1 @ F2\<rparr>))"
      by (rule lifeInv_start_other [OF o]) simp_all
    from k afterJson_ends [of cmd out] response_ends [of out] show ?thesis
      unfolding ByQueue by (auto simp: resume_def fin fb)
  next
    case ByStartStop
    with ok obtain st body where out: "out = Responded st body" by (cases out) simp_all
    from plain ByStartStop have k: "k = response" by simp
    from LI_stop_answered [OF li [unfolded ByStartStop]]
    have "lifeInv n (setTimeout SettleStart 1000 (s\<lparr>inflight := F1 @ F2\<rparr>))"
      by (simp add: lifeInv_def setTimeout_def)
    with cfg k out ByStartStop show ?thesis
      by (simp add: resume_def response_def channelLoop_def)
  next
    case ByInit
    with LI_no_init [OF li] show ?thesis by simp
  next
    case (ByChannel j)
    with LI_no_init [OF li] show ?thesis by simp
  next
    case ByLoneStop
    with other have o: "lifeInv n (s\<lparr>inflight := F1 @ F2\<rparr>)" by simp
    from plain ByLoneStop have "k = response" by simp
    with response_ends [of out] o ByLoneStop show ?thesis by (auto simp: resume_def)
  next
    case ByStreamStart
    with ok obtain st body where out: "out = Responded st body"
      by (cases out) (simp_all add: caught_def)
    from plain ByStreamStart have k: "k = response" by simp
    from LI_start_settled [OF li [unfolded ByStreamStart]]
    have "lifeInv n (s\<lparr>inflight := F1 @ F2\<rparr>)" by (simp add: lifeInv_def)
    with k out ByStreamStart show ?thesis by (simp add: resume_def response_def)
  next
    case ByTcp
    with ok obtain st body where out: "out = Responded st body"
      by (cases out) (simp_all add: caught_def)
    from plain ByTcp have k: "k = response" by simp
    from other ByTcp have o: "lifeInv n (s\<lparr>inflight := F1 @ F2\<rparr>)" by simp
    have "lifeInv n (start (Await (Post ''/tcp'' (TcpConfig False)) response) ByTcpRetry
        (s\<lparr>inflight := F1 @ F2\<rparr>))"
      by (rule lifeInv_start_other [OF o]) simp_all
    with o k out ByTcp show ?thesis by (simp add: resume_def response_def httpJson_def)
  next
    case ByTcpRetry
    with ok obtain st body where out: "out = Responded st body"
      by (cases out) (simp_all add: caught_def)
    from plain ByTcpRetry have k: "k = response" by simp
    from other ByTcpRetry have o: "lifeInv n (s\<lparr>inflight := F1 @ F2\<rparr>)" by simp
    with k out ByTcpRetry show ?thesis by (simp add: resume_def response_def)
  qed
qed

lemma lifeInv_handle:
  assumes cfg: "initCmd cfg = []" "channelCmds cfg = []"
    and inv: "lifeInv n s" and q: "queueInv s"
    and le: "n + bytesB e \<le> 1"
    and r1: "\<not> rejects (\<lambda>c. \<not> caught c) s e" and r2: "\<not> rejects (\<lambda>c. c = ByStartStop) s e"
  shows "lifeInv (n + bytesB e) (handle cfg e s)"
proof (cases e)
  case (SerialData buf)
  with lifeInv_onSerialData [OF inv, of buf] le show ?thesis by (simp add: handle_def bytesB_def)
next
  case Listening
  from inv have "lifeInv n (s\<lparr>listenPending := False\<rparr>)" by (simp add: lifeInv_def)
  then have "lifeInv n (start (Await (Post ''/tcp'' (TcpConfig True)) response) ByTcp
      (s\<lparr>listenPending := False\<rparr>))"
    by (rule lifeInv_start_other) simp_all
  with inv Listening show ?thesis by (simp add: handle_def bytesB_def httpJson_def)
next
  case (Tick d)
  with inv show ?thesis by (simp add: handle_def bytesB_def lifeInv_def LI_tick)
next
  case (TimerFire i)
  with inv lifeInv_fireTimer [OF inv, of i] show ?thesis by (simp add: handle_def bytesB_def)
next
  case (FetchSettle i out)
  show ?thesis
  proof (cases "find (\<lambda>(j, k, c). j = i) (inflight s)")
    case None
    with inv FetchSettle show ?thesis by (simp add: handle_def bytesB_def)
  next
    case (Some e')
    from q have io: "idsOk (inflight s) (nextFetch s)" and co: "contsOk (inflight s)"
      by (simp_all add: queueInv_def QI_def)
    from pending_split [OF io Some] obtain F1 F2 k c where
      e': "e' = (i, k, c)" and F: "inflight s = F1 @ (i, k, c) # F2"
      and fl: "filter (\<lambda>(j, k, c). j \<noteq> i) (inflight s) = F1 @ F2" by blast
    have h: "handle cfg e s = resume cfg (k out) c (s\<lparr>inflight := F1 @ F2\<rparr>)"
      using FetchSettle Some e' fl by (simp add: handle_def)
    from r1 r2 FetchSettle Some e' have "out = Rejected \<longrightarrow> caught c \<and> c \<noteq> ByStartStop"
      by (simp add: rejects_def)
    from lifeInv_settle [OF cfg inv co F this] show ?thesis
      unfolding h using FetchSettle by (simp add: bytesB_def)
  qed
qed (use inv lifeInv_view [OF lifeView_data] in \<open>simp_all add: dataEvent_def bytesB_def\<close>)

lemma lifeInv_runMicrotasks:
  assumes "lifeInv n s" and "queueInv s"
  shows "lifeInv n (runMicrotasks s)"
proof -
  have r: "lifeInv n (s\<lparr>reactions := R\<rparr>)" for R using assms(1) by (simp add: lifeInv_def)
  have "lifeInv n (start (sendShieldCommand c1) (ByQueue c1 q1) (s\<lparr>reactions := R\<rparr>))" for c1 q1 R
    unfolding sendShieldCommand_Await by (rule lifeInv_start_other [OF r]) simp_all
  with assms show ?thesis
    by (simp add: runMicrotasks_cases split: list.splits)
qed

lemma queueInv_step: "queueInv s \<Longrightarrow> queueInv (step cfg e s)"
  unfolding step_def using queueInv_runMicrotasks [OF queueInv_handle] by blast

lemma lifeInv_run:
  assumes cfg: "initCmd cfg = []" "channelCmds cfg = []"
  shows "lifeInv n s \<Longrightarrow> queueInv s \<Longrightarrow> n + triggersB evs \<le> 1 \<Longrightarrow>
     noRejection (\<lambda>c. \<not> caught c) cfg evs s \<Longrightarrow> noRejection (\<lambda>c. c = ByStartStop) cfg evs s \<Longrightarrow>
     lifeInv (n + triggersB evs) (run cfg evs s)"
proof (induction evs arbitrary: n s)
  case Nil
  then show ?case by (simp add: run_def triggersB_def)
next
  case (Cons e es)
  from Cons.prems(3) have le: "n + bytesB e \<le> 1" and le2: "n + bytesB e + triggersB es \<le> 1"
    by (simp_all add: triggersB_def)
  from Cons.prems(4,5) have r: "\<not> rejects (\<lambda>c. \<not> caught c) s e" "\<not> rejects (\<lambda>c. c = ByStartStop) s e"
    and nr: "noRejection (\<lambda>c. \<not> caught c) cfg es (step cfg e s)"
      "noRejection (\<lambda>c. c = ByStartStop) cfg es (step cfg e s)" by simp_all
  from lifeInv_handle [OF cfg Cons.prems(1,2) le r]
  have "lifeInv (n + bytesB e) (handle cfg e s)" .
  then have 1: "lifeInv (n + bytesB e) (step cfg e s)"
    unfolding step_def by (rule lifeInv_runMicrotasks) (rule queueInv_handle [OF Cons.prems(2)])
  have 2: "queueInv (step cfg e s)" by (rule queueInv_step [OF Cons.prems(2)])
  from Cons.IH [OF 1 2 le2 nr] show ?case by (simp add: run_def triggersB_def add.assoc)
qed


lemma calls_of_sequence:
  assumes "\<And>t r c. P (t, r, c) \<Longrightarrow> (t, r, c) \<in> set C \<Longrightarrow> isSeq c"
  shows "filter P C = filter P (seqCalls C)"
  unfolding seqCalls_def filter_filter by (rule filter_cong) (use assms in auto)

lemma lifeTimers_pending:
  "filter (\<lambda>(d, cb). cb = TriggerB \<or> cb = SettleStart) T = lifeTimers T"
  unfolding lifeTimers_def
proof (rule filter_cong)
  fix x assume "x \<in> set T"
  obtain d cb where "x = (d, cb)" by (cases x)
  then show "(case x of (d, cb) \<Rightarrow> cb = TriggerB \<or> cb = SettleStart) =
             (case x of (d, cb) \<Rightarrow> cb \<noteq> TriggerS)" by (cases cb) simp_all
qed simp

lemma stop_in_flight:
  "filter (\<lambda>(i, k, c). c = ByStartStop) F = [] \<Longrightarrow> ByStartStop \<notin> set (seqFlight F)"
  by (auto simp: seqFlight_def filter_empty_conv)

lemma lifeInv_calls:
  assumes "lifeInv (Suc 0) s"
  shows "initCalls s = []" and "channelCalls s = []"
    and "sequenceStops s = [] \<and> startCalls s = [] \<and> \<not> sequenceOver s
       \<or> sequenceStops s = [lastStartAt (stats s)] \<and> startCalls s = [] \<and> \<not> sequenceOver s
       \<or> (\<exists>u. sequenceStops s = [lastStartAt (stats s)] \<and> startCalls s = [u] \<and>
              lastStartAt (stats s) + 1000 \<le> u)"
proof -
  let ?C = "calls s" and ?a = "lastStartAt (stats s)"
  from assms have sb: "startsBySeq ?C"
    and ph: "phase (Suc 0) (lifeTimers (timers s)) (seqFlight (inflight s)) (seqCalls ?C) ?a (now s)"
    by (simp_all add: lifeInv_def LI_def)
  have i: "filter (\<lambda>(t, r, c). c = ByInit) ?C = filter (\<lambda>(t, r, c). c = ByInit) (seqCalls ?C)"
    by (rule calls_of_sequence) simp
  have c: "filter (\<lambda>(t, r, c). case c of ByChannel k \<Rightarrow> True | _ \<Rightarrow> False) ?C =
           filter (\<lambda>(t, r, c). case c of ByChannel k \<Rightarrow> True | _ \<Rightarrow> False) (seqCalls ?C)"
    by (rule calls_of_sequence) (simp split: caller.splits)
  have p: "filter (\<lambda>(t, r, c). r = Get ''/stream/stop'' \<and> c = ByStartStop) ?C =
           filter (\<lambda>(t, r, c). r = Get ''/stream/stop'' \<and> c = ByStartStop) (seqCalls ?C)"
    by (rule calls_of_sequence) simp
  have g: "filter (\<lambda>(t, r, c). r = Get ''/stream/start'') ?C =
           filter (\<lambda>(t, r, c). r = Get ''/stream/start'') (seqCalls ?C)"
    by (rule calls_of_sequence) (use sb in \<open>auto simp: startsBySeq_def\<close>)
  have over: "sequenceOver s \<Longrightarrow> lifeTimers (timers s) = [] \<and> ByStartStop \<notin> set (seqFlight (inflight s))"
    by (simp add: sequenceOver_def lifeTimers_pending stop_in_flight)
  from ph show "initCalls s = []" and "channelCalls s = []"
    unfolding initCalls_def channelCalls_def callTimes_def i c phase_def by auto
  from ph over show "sequenceStops s = [] \<and> startCalls s = [] \<and> \<not> sequenceOver s
       \<or> sequenceStops s = [?a] \<and> startCalls s = [] \<and> \<not> sequenceOver s
       \<or> (\<exists>u. sequenceStops s = [?a] \<and> startCalls s = [u] \<and> ?a + 1000 \<le> u)"
    unfolding sequenceStops_def startCalls_def callTimes_def p g phase_def by auto
qed

section \<open>The claims\<close>

text \<open>Rule sets for running the model on the inputs of the witnesses.\<close>

lemmas tok_simps = feedCmdBytes_def feedByte_def queueCmd_def Let_def trim_def isTrimmed_def
  singleCharCmd_def fromCharCode_def char_of_def bit_Suc_0_iff

lemmas run_simps = run_def step_def handle_def runMicrotasks_def onConnection_def onData_def
  onClose_def onDrain_def init_def writeToSerial_def Let_def pass_good pass_short pass_bad
  countOk_def countBad_def

lemmas life_simps = run_def step_def handle_def runMicrotasks_def onSerialData_def
  feedCmdBytes_def feedByte_def queueCmd_def trigger_def setTimeout_def Let_def trim_def
  isTrimmed_def singleCharCmd_def fromCharCode_def char_of_def bit_Suc_0_iff
  start_def sendShieldCommand_Await afterJson_cases httpGet_def fireTimer_def startStream_def
  stopStream_def startServer_def resume_def response_def channelLoop_def init_def

lemmas call_simps = sequenceStops_def startCalls_def initCalls_def channelCalls_def callTimes_def

lemmas queue_simps = run_def step_def handle_def runMicrotasks_def onSerialData_def
  feedCmdBytes_def feedByte_def queueCmd_def trigger_def setTimeout_def Let_def trim_def
  isTrimmed_def singleCharCmd_def fromCharCode_def char_of_def bit_Suc_0_iff
  start_def sendShieldCommand_Await afterJson_cases resume_def response_def init_def
  queueRunning_def running_def isQueue_def dispatched_def dispatchedIn_def

lemma start34X_text: "map fromCharCode start34X = ''start34X''"
  by (simp add: start34X_def fromCharCode_def char_of_def bit_Suc_0_iff)

text \<open>
  C1 (amended). Fed the bytes of \<^verbatim>\<open>start34X\<close> with an empty accumulator, the tokenizer
  gives two tokens to the queue, not one: \<^verbatim>\<open>s\<close> is a single-character command and is
  emitted as soon as its byte has been read, and \<^verbatim>\<open>tart34X\<close> is emitted upon the
  \<^verbatim>\<open>X\<close>, with no newline; before the \<^verbatim>\<open>X\<close> the accumulator holds \<^verbatim>\<open>tart34\<close>.
\<close>

theorem C1_start34X_two_tokens:
  assumes "cmdBuf s = []"
  shows "queued (feedCmdBytes start34X s) = queued s @ [''s'', ''tart34X'']
       \<and> cmdBuf (feedCmdBytes start34X s) = []
       \<and> queued (feedCmdBytes (take 1 start34X) s) = queued s @ [''s'']
       \<and> cmdBuf (feedCmdBytes (take 1 start34X) s) = []
       \<and> queued (feedCmdBytes (take 7 start34X) s) = queued s @ [''s'']
       \<and> cmdBuf (feedCmdBytes (take 7 start34X) s) = ''tart34''"
  using assms by (simp add: start34X_def tok_simps)

theorem C1_start34X_two_tokens_witness:
  "cmdBuf (init 0) = []
   \<and> queued (feedCmdBytes start34X (init 0)) = [''s'', ''tart34X'']
   \<and> cmdBuf (feedCmdBytes (take 7 start34X) (init 0)) = ''tart34''"
  using C1_start34X_two_tokens [of "init 0"] by (simp add: init_def)

text \<open>
  C1 as stated fails: from the initial state the tokens emitted for \<^verbatim>\<open>start34X\<close> are
  not the single token \<^verbatim>\<open>start34X\<close>.
\<close>

theorem C1_start34X_one_token_fails:
  "queued (feedCmdBytes start34X (init 0)) \<noteq> [''start34X'']"
  by (simp add: start34X_def tok_simps init_def)

text \<open>
  C2. From any state, one \<^verbatim>\<open>data\<close> event with the chunk \<open>a @ b\<close> hands the same frames
  to the serial sink, in the same order, as a \<^verbatim>\<open>data\<close> event with \<open>a\<close> followed by one
  with \<open>b\<close>.
\<close>

theorem C2_chunk_boundary: "emitted (onData (a @ b) s) = emitted (onData b (onData a s))"
  using scan_append [of "tcpBuffer s @ a" b] by (simp add: onData_emitted)

theorem C2_chunk_boundary_witness:
  "emitted (onData (take 20 goodFrame @ drop 20 goodFrame) (init 0)) = [goodFrame]
   \<and> emitted (onData (drop 20 goodFrame) (onData (take 20 goodFrame) (init 0))) = [goodFrame]"
proof -
  have "emitted (onData goodFrame (init 0)) = [goodFrame]"
    by (simp add: onData_emitted init_def goodFrame_def scan_good scan_short)
  with C2_chunk_boundary [of "take 20 goodFrame" "drop 20 goodFrame" "init 0"]
  show ?thesis by simp
qed

text \<open>
  C3. One pass through the loop body, entered with at least 33 bytes of which the first
  is the sync marker \<open>0xA0\<close>. When the high nibble of byte 32 is not \<open>0xC\<close>: the bad-frame
  counter goes up by one, the good-frame counter stays, one byte leaves the head of the
  buffer and no frame is handed on. When it is \<open>0xC\<close>: the first 33 bytes are handed on
  as they are, the good-frame counter goes up by one, the bad-frame counter stays, and 33
  bytes leave the buffer.
\<close>

theorem C3_one_step:
  assumes "33 \<le> length (tcpBuffer s)" and "tcpBuffer s ! 0 = 0xA0"
  shows "(drop_bit 4 (tcpBuffer s ! 32) \<noteq> 0xC \<longrightarrow>
            fst (loopBody s) = Continue \<and>
            tcpFramesBad (stats (snd (loopBody s))) = tcpFramesBad (stats s) + 1 \<and>
            tcpFramesOk (stats (snd (loopBody s))) = tcpFramesOk (stats s) \<and>
            tcpBuffer (snd (loopBody s)) = drop 1 (tcpBuffer s) \<and>
            length (tcpBuffer (snd (loopBody s))) + 1 = length (tcpBuffer s) \<and>
            emitted (snd (loopBody s)) = emitted s)
       \<and> (drop_bit 4 (tcpBuffer s ! 32) = 0xC \<longrightarrow>
            fst (loopBody s) = Continue \<and>
            emitted (snd (loopBody s)) = emitted s @ [take 33 (tcpBuffer s)] \<and>
            tcpFramesOk (stats (snd (loopBody s))) = tcpFramesOk (stats s) + 1 \<and>
            tcpFramesBad (stats (snd (loopBody s))) = tcpFramesBad (stats s) \<and>
            tcpBuffer (snd (loopBody s)) = drop 33 (tcpBuffer s) \<and>
            length (tcpBuffer (snd (loopBody s))) + 33 = length (tcpBuffer s))"
  using assms
  by (auto simp: loopBody_def Let_def high_nibble writeToSerial_stats_tcp writeToSerial_emitted
        writeToSerial_tcpBuffer)

theorem C3_one_step_witness:
  "33 \<le> length badBlock \<and> badBlock ! 0 = 0xA0 \<and> drop_bit 4 (badBlock ! 32) \<noteq> (0xC :: byte)
   \<and> tcpFramesBad (stats (snd (loopBody ((init 0)\<lparr>tcpBuffer := badBlock @ goodFrame\<rparr>)))) = 1
   \<and> tcpBuffer (snd (loopBody ((init 0)\<lparr>tcpBuffer := badBlock @ goodFrame\<rparr>))) = drop 1 badBlock @ goodFrame
   \<and> emitted (snd (loopBody ((init 0)\<lparr>tcpBuffer := badBlock @ goodFrame\<rparr>))) = []
   \<and> drop_bit 4 (goodFrame ! 32) = (0xC :: byte)
   \<and> emitted (snd (loopBody ((init 0)\<lparr>tcpBuffer := goodFrame @ badBlock\<rparr>))) = [goodFrame]
   \<and> tcpFramesOk (stats (snd (loopBody ((init 0)\<lparr>tcpBuffer := goodFrame @ badBlock\<rparr>)))) = 1
   \<and> tcpFramesBad (stats (snd (loopBody ((init 0)\<lparr>tcpBuffer := goodFrame @ badBlock\<rparr>)))) = 0
   \<and> tcpBuffer (snd (loopBody ((init 0)\<lparr>tcpBuffer := goodFrame @ badBlock\<rparr>))) = badBlock"
  using C3_one_step [of "(init 0)\<lparr>tcpBuffer := badBlock @ goodFrame\<rparr>"]
    C3_one_step [of "(init 0)\<lparr>tcpBuffer := goodFrame @ badBlock\<rparr>"]
  by (simp add: init_def badBlock_def goodFrame_def drop_bit_eq_div)

text \<open>
  C4. In every state the bridge can reach, whatever the outcomes of the HTTP calls so
  far: at most one dispatch of the command queue has a call under way; the tokens
  dispatched so far are a prefix of the tokens enqueued, in the same order; and when no
  dispatch is under way, every token enqueued has been dispatched. When the call of the
  dispatch under way ends the dispatch, by a result or by an error, the next token in
  enqueue order (if there is one) is dispatched within the same event, and nothing else.
\<close>

theorem C4_queue_order:
  "length (queueRunning (run cfg evs (init t0))) \<le> 1
   \<and> prefix (dispatched (run cfg evs (init t0))) (queued (run cfg evs (init t0)))
   \<and> (queueRunning (run cfg evs (init t0)) = [] \<longrightarrow>
        dispatched (run cfg evs (init t0)) = queued (run cfg evs (init t0)))
   \<and> (find (\<lambda>(j, k, c). j = i) (inflight (run cfg evs (init t0))) = Some (i, k, ByQueue cmd q) \<and>
       (k out = Thrown \<or> (\<exists>r. k out = Ret r)) \<longrightarrow>
        dispatched (step cfg (FetchSettle i out) (run cfg evs (init t0))) =
          take (Suc (length (dispatched (run cfg evs (init t0))))) (queued (run cfg evs (init t0))) \<and>
        queued (step cfg (FetchSettle i out) (run cfg evs (init t0))) =
          queued (run cfg evs (init t0)))"
proof -
  let ?s = "run cfg evs (init t0)"
  from queue_invariant [of cfg evs t0] have inv: "queueInv ?s" and idle: "idle ?s" by simp_all
  from queueInv_facts [OF inv idle] dispatch_ends [OF inv idle, of i k cmd q out cfg]
  show ?thesis by blast
qed

theorem C4_queue_order_witness:
  "queued (run noConfig [SerialData [0x31, 0x32]] (init 0)) = [''1'', ''2'']
   \<and> dispatched (run noConfig [SerialData [0x31, 0x32]] (init 0)) = [''1'']
   \<and> queueRunning (run noConfig [SerialData [0x31, 0x32]] (init 0)) = [ByQueue ''1'' 1]
   \<and> find (\<lambda>(j, k, c). j = 0) (inflight (run noConfig [SerialData [0x31, 0x32]] (init 0))) =
        Some (0, afterJson ''1'', ByQueue ''1'' 1)
   \<and> afterJson ''1'' Rejected = Thrown
   \<and> dispatched (step noConfig (FetchSettle 0 Rejected) (run noConfig [SerialData [0x31, 0x32]] (init 0))) =
        [''1'', ''2'']"
proof -
  let ?s = "run noConfig [SerialData [0x31, 0x32]] (init 0)"
  have a: "queued ?s = [''1'', ''2'']" "dispatched ?s = [''1'']"
    "queueRunning ?s = [ByQueue ''1'' 1]"
    "find (\<lambda>(j, k, c). j = 0) (inflight ?s) = Some (0, afterJson ''1'', ByQueue ''1'' 1)"
    by (simp_all add: queue_simps)
  have b: "afterJson ''1'' Rejected = Thrown" by (simp add: afterJson_cases)
  from C4_queue_order [of noConfig "[SerialData [0x31, 0x32]]" 0 0 "afterJson ''1''" "''1''" 1 Rejected]
    a b
  show ?thesis by simp
qed

text \<open>
  C5 (amended). \<^verbatim>\<open>sendShieldCommand\<close> first posts the token as JSON. When that call is
  answered with a status outside 200--299, it posts the same token as plain text; when
  it is answered with a status in 200--299, it makes no second call; and when the call
  fails at the transport level (the \<^verbatim>\<open>fetch\<close> rejects), it makes no second call either:
  the failure goes to the caller. The same for a dispatch of the command queue: when
  the JSON call of a queue task ends, the handler makes the plain-text call in the first
  case and no call in the other two.
\<close>

theorem C5_fallback:
  "requests (sendShieldCommand cmd) (Responded st body # rest) =
     (if 200 \<le> st \<and> st \<le> 299 then [Post ''/command'' (CommandJson cmd)]
      else [Post ''/command'' (CommandJson cmd), Post ''/command'' (PlainText cmd)])
   \<and> requests (sendShieldCommand cmd) (Rejected # rest) = [Post ''/command'' (CommandJson cmd)]
   \<and> (find (\<lambda>(j, k, c). j = i) (inflight s) = Some (i, afterJson cmd, ByQueue cmd q) \<longrightarrow>
        calls (handle cfg (FetchSettle i out) s) =
          calls s @
            (case out of
               Rejected \<Rightarrow> []
             | Responded st' body' \<Rightarrow>
                 if 200 \<le> st' \<and> st' \<le> 299 then []
                 else [(now s, Post ''/command'' (PlainText cmd), ByQueue cmd q)]))"
proof -
  have "requests (sendShieldCommand cmd) (Responded st body # rest) =
     (if 200 \<le> st \<and> st \<le> 299 then [Post ''/command'' (CommandJson cmd)]
      else [Post ''/command'' (CommandJson cmd), Post ''/command'' (PlainText cmd)])"
    by (simp add: sendShieldCommand_Await afterJson_cases response_def
          split: list.splits outcome.splits)
  moreover have "requests (sendShieldCommand cmd) (Rejected # rest) =
      [Post ''/command'' (CommandJson cmd)]"
    by (simp add: sendShieldCommand_Await afterJson_cases)
  moreover have "find (\<lambda>(j, k, c). j = i) (inflight s) = Some (i, afterJson cmd, ByQueue cmd q) \<longrightarrow>
        calls (handle cfg (FetchSettle i out) s) =
          calls s @
            (case out of
               Rejected \<Rightarrow> []
             | Responded st' body' \<Rightarrow>
                 if 200 \<le> st' \<and> st' \<le> 299 then []
                 else [(now s, Post ''/command'' (PlainText cmd), ByQueue cmd q)])"
    by (cases out) (simp_all add: handle_def resume_def afterJson_cases start_def)
  ultimately show ?thesis by blast
qed

theorem C5_fallback_witness:
  "requests (sendShieldCommand ''v'') [Responded 404 ''no'', Responded 200 ''ok''] =
     [Post ''/command'' (CommandJson ''v''), Post ''/command'' (PlainText ''v'')]
   \<and> requests (sendShieldCommand ''v'') [Responded 200 ''ok''] = [Post ''/command'' (CommandJson ''v'')]
   \<and> calls (handle noConfig (FetchSettle 0 (Responded 404 ''no'')) (run noConfig [SerialData [0x76]] (init 0))) =
       [(0, Post ''/command'' (CommandJson ''v''), ByQueue ''v'' 1),
        (0, Post ''/command'' (PlainText ''v''), ByQueue ''v'' 1)]"
proof -
  let ?s = "run noConfig [SerialData [0x76]] (init 0)"
  have a: "inflight ?s = [(0, afterJson ''v'', ByQueue ''v'' 1)]"
    and b: "calls ?s = [(0, Post ''/command'' (CommandJson ''v''), ByQueue ''v'' 1)]"
    and c: "now ?s = 0"
    by (simp_all add: life_simps)
  from C5_fallback [of "''v''" 404 "''no''" "[Responded 200 ''ok'']" 0 ?s 1 noConfig "Responded 404 ''no''"]
    C5_fallback [of "''v''" 200 "''ok''" "[]" 0 ?s 1 noConfig "Responded 404 ''no''"] a b c
  show ?thesis by simp
qed

text \<open>
  C5 as stated fails: after a transport failure of the JSON call no plain-text call is
  made, and the queue's dispatch of the token is over.
\<close>

theorem C5_no_fallback_after_transport_failure:
  "requests (sendShieldCommand ''v'') [Rejected, Responded 200 ''ok''] =
     [Post ''/command'' (CommandJson ''v'')]
   \<and> calls (run noConfig [SerialData [0x76], FetchSettle 0 Rejected] (init 0)) =
       [(0, Post ''/command'' (CommandJson ''v''), ByQueue ''v'' 1)]
   \<and> inflight (run noConfig [SerialData [0x76], FetchSettle 0 Rejected] (init 0)) = []"
  by (simp add: life_simps)

text \<open>
  C6. The claim is that a closing TCP connection resets the receive buffer and the flag
  \<^verbatim>\<open>pausedBySerialBackpressure\<close>, and nothing else. The handler (lines 359--363) empties
  the buffer and does not write the flag (\<open>close_effect\<close>). So a flag that a saturated
  write has set is still set when the connection has closed; and when the next connection
  delivers a frame and the write is saturated again, no \<^verbatim>\<open>pause\<close> is sent to it: the one
  \<^verbatim>\<open>pause\<close> of the run is that of the closed connection.
\<close>

theorem C6_stale_flag:
  "pausedBySerialBackpressure
     (run noConfig [SerialPort True [False, False], TcpConnection 1, TcpData 1 goodFrame, TcpClose 1]
        (init 0))
   \<and> written (run noConfig [SerialPort True [False, False], TcpConnection 1, TcpData 1 goodFrame,
        TcpClose 1, TcpConnection 2, TcpData 2 goodFrame] (init 0))
       = [(goodFrame, False), (goodFrame, False)]
   \<and> signals (run noConfig [SerialPort True [False, False], TcpConnection 1, TcpData 1 goodFrame,
        TcpClose 1, TcpConnection 2, TcpData 2 goodFrame] (init 0)) = [Pause 1]"
  by (simp add: run_simps goodFrame_def)

text \<open>
  C7. In every state the bridge can reach, the calls of \<^verbatim>\<open>pause\<close> and \<^verbatim>\<open>resume\<close> made
  so far alternate, beginning with a \<^verbatim>\<open>pause\<close>, and the flag is set exactly when the last
  of them is a \<^verbatim>\<open>pause\<close>. And from any state, one event does one of three things: no
  signal and the flag unchanged; or, on a \<^verbatim>\<open>data\<close> event only, one \<^verbatim>\<open>pause\<close> on the
  connected socket, the flag clear before and set after, a serial write of this event
  having returned \<open>False\<close>; or, on the \<^verbatim>\<open>drain\<close> event only, one \<^verbatim>\<open>resume\<close> on the
  connected socket, the flag set before and clear after.
\<close>

theorem C7_flow:
  "afterSignals False (signals (run cfg evs (init t0))) =
     Some (pausedBySerialBackpressure (run cfg evs (init t0)))
   \<and> (quiet s (step cfg e s)
      \<or> ((\<exists>sk chunk. e = TcpData sk chunk) \<and> pausing s (step cfg e s))
      \<or> (e = SerialDrain \<and> resuming s (step cfg e s)))"
  using flow_invariant [of cfg evs t0] step_flow [of s cfg e] by simp

theorem C7_flow_witness:
  "signals (run noConfig [SerialPort True [False, False], TcpConnection 7,
       TcpData 7 (goodFrame @ goodFrame), SerialDrain, SerialDrain] (init 0)) = [Pause 7, Resume 7]
   \<and> afterSignals False [Pause 7, Resume 7] = Some False
   \<and> \<not> pausedBySerialBackpressure (run noConfig [SerialPort True [False, False], TcpConnection 7,
       TcpData 7 (goodFrame @ goodFrame), SerialDrain, SerialDrain] (init 0))"
proof -
  let ?evs = "[SerialPort True [False, False], TcpConnection 7,
       TcpData 7 (goodFrame @ goodFrame), SerialDrain, SerialDrain]"
  have "signals (run noConfig ?evs (init 0)) = [Pause 7, Resume 7]"
    by (simp add: run_simps goodFrame_def)
  with C7_flow [of noConfig ?evs 0 "init 0" SerialDrain] show ?thesis by simp
qed

text \<open>
  C8. Whenever \<^verbatim>\<open>processTcpBuffer\<close> returns, the buffer holds fewer than 33 bytes or its
  first byte is the sync marker. (The first always holds: \<open>processTcpBuffer_short\<close>.)
\<close>

theorem C8_after_pass:
  "length (tcpBuffer (processTcpBuffer s)) < 33 \<or> tcpBuffer (processTcpBuffer s) ! 0 = 0xA0"
  by (simp add: processTcpBuffer_short)

theorem C8_after_pass_witness:
  "tcpBuffer (processTcpBuffer ((init 0)\<lparr>tcpBuffer := badBlock\<rparr>)) = drop 1 badBlock
   \<and> (length (tcpBuffer (processTcpBuffer ((init 0)\<lparr>tcpBuffer := badBlock\<rparr>))) < 33
      \<or> tcpBuffer (processTcpBuffer ((init 0)\<lparr>tcpBuffer := badBlock\<rparr>)) ! 0 = 0xA0)"
proof -
  have "tcpBuffer (processTcpBuffer ((init 0)\<lparr>tcpBuffer := badBlock\<rparr>)) = drop 1 badBlock"
    by (simp add: process_scan init_def badBlock_def scan_bad scan_short)
  with C8_after_pass [of "(init 0)\<lparr>tcpBuffer := badBlock\<rparr>"] show ?thesis by simp
qed

text \<open>
  C9 (amended). No initialization command and no channel commands are configured, and
  over the whole run, whatever else happens in it, the byte \<^verbatim>\<open>b\<close> is received once. The
  stop-stream call of the sequence does not fail at the transport level (an HTTP response
  of any status will do), and neither does a call awaited where the script has no handler
  for the failure. Then at every moment there is no initialization call and no channel
  call, at most one stop-stream call of the sequence, made at the time the sequence began
  (\<^verbatim>\<open>stats.lastStartAt\<close>), and at most one start-stream call, made after that stop-stream
  call and no earlier than 1000 ms after the sequence began. When the sequence has run to
  its end there is exactly one of each. (A stop-stream call made for a byte \<^verbatim>\<open>s\<close>,
  line 489, is not a call of the sequence; start-stream calls are counted whoever makes
  them.)
\<close>

theorem C9_sequence:
  assumes "initCmd cfg = []" and "channelCmds cfg = []"
    and "triggersB evs = 1"
    and "noRejection (\<lambda>c. \<not> caught c) cfg evs (init t0)"
    and "noRejection (\<lambda>c. c = ByStartStop) cfg evs (init t0)"
    and "s = run cfg evs (init t0)"
  shows "initCalls s = [] \<and> channelCalls s = []
       \<and> length (sequenceStops s) \<le> 1 \<and> length (startCalls s) \<le> 1
       \<and> (\<forall>u \<in> set (startCalls s).
            sequenceStops s = [lastStartAt (stats s)] \<and> lastStartAt (stats s) + 1000 \<le> u)
       \<and> (sequenceOver s \<longrightarrow> length (sequenceStops s) = 1 \<and> length (startCalls s) = 1)"
proof -
  from lifeInv_run [OF assms(1,2) lifeInv_init queueInv_init _ assms(4,5)] assms(3,6)
  have "lifeInv (Suc 0) s" by simp
  from lifeInv_calls [OF this] show ?thesis by auto
qed

theorem C9_sequence_witness:
  "triggersB [SerialData [0x62], FetchSettle 0 Rejected, Tick 1000, TimerFire 0, Listening,
       FetchSettle 2 (Responded 200 ''ok''), Tick 40, FetchSettle 1 (Responded 503 ''busy''),
       Tick 1000, TimerFire 0] = 1
   \<and> sequenceOver (run noConfig [SerialData [0x62], FetchSettle 0 Rejected, Tick 1000, TimerFire 0,
       Listening, FetchSettle 2 (Responded 200 ''ok''), Tick 40,
       FetchSettle 1 (Responded 503 ''busy''), Tick 1000, TimerFire 0] (init 0))
   \<and> sequenceStops (run noConfig [SerialData [0x62], FetchSettle 0 Rejected, Tick 1000, TimerFire 0,
       Listening, FetchSettle 2 (Responded 200 ''ok''), Tick 40,
       FetchSettle 1 (Responded 503 ''busy''), Tick 1000, TimerFire 0] (init 0)) = [1000]
   \<and> startCalls (run noConfig [SerialData [0x62], FetchSettle 0 Rejected, Tick 1000, TimerFire 0,
       Listening, FetchSettle 2 (Responded 200 ''ok''), Tick 40,
       FetchSettle 1 (Responded 503 ''busy''), Tick 1000, TimerFire 0] (init 0)) = [2040]
   \<and> initCalls (run noConfig [SerialData [0x62], FetchSettle 0 Rejected, Tick 1000, TimerFire 0,
       Listening, FetchSettle 2 (Responded 200 ''ok''), Tick 40,
       FetchSettle 1 (Responded 503 ''busy''), Tick 1000, TimerFire 0] (init 0)) = []
   \<and> channelCalls (run noConfig [SerialData [0x62], FetchSettle 0 Rejected, Tick 1000, TimerFire 0,
       Listening, FetchSettle 2 (Responded 200 ''ok''), Tick 40,
       FetchSettle 1 (Responded 503 ''busy''), Tick 1000, TimerFire 0] (init 0)) = []"
proof -
  let ?evs = "[SerialData [0x62], FetchSettle 0 Rejected, Tick 1000, TimerFire 0, Listening,
       FetchSettle 2 (Responded 200 ''ok''), Tick 40, FetchSettle 1 (Responded 503 ''busy''),
       Tick 1000, TimerFire 0]"
  have c: "initCmd noConfig = []" "channelCmds noConfig = []" by (simp_all add: noConfig_def)
  have t: "triggersB ?evs = 1" by (simp add: triggersB_def bytesB_def)
  have n1: "noRejection (\<lambda>c. \<not> caught c) noConfig ?evs (init 0)"
    by (simp add: rejects_def caught_def life_simps httpJson_def noConfig_def)
  have n2: "noRejection (\<lambda>c. c = ByStartStop) noConfig ?evs (init 0)"
    by (simp add: rejects_def life_simps httpJson_def noConfig_def)
  have o: "sequenceOver (run noConfig ?evs (init 0))"
    and st: "startCalls (run noConfig ?evs (init 0)) = [2040]"
    and sp: "sequenceStops (run noConfig ?evs (init 0)) = [1000]"
    by (simp_all add: sequenceOver_def sequenceStops_def life_simps httpJson_def call_simps
          noConfig_def)
  from C9_sequence [OF c t n1 n2 refl] o st sp t show ?thesis by simp
qed

text \<open>
  C9 as stated fails: when the stop-stream call fails at the transport level, the
  rejection is swallowed (line 484) and the sequence ends there. In this run the
  \<^verbatim>\<open>/tcp\<close> call is answered and no call without a handler fails; the sequence is over,
  with one stop-stream call and no start-stream call; no timer is left that could make
  one, and the only HTTP call under way is the queue's dispatch of the token \<^verbatim>\<open>b\<close>.
\<close>

theorem C9_no_start_after_failed_stop:
  "triggersB [SerialData [0x62], Tick 1000, TimerFire 0, Listening,
        FetchSettle 2 (Responded 200 ''ok''), FetchSettle 1 Rejected, Tick 1000, TimerFire 0] = 1
   \<and> noRejection (\<lambda>c. \<not> caught c) noConfig [SerialData [0x62], Tick 1000, TimerFire 0, Listening,
        FetchSettle 2 (Responded 200 ''ok''), FetchSettle 1 Rejected, Tick 1000, TimerFire 0] (init 0)
   \<and> sequenceOver (run noConfig [SerialData [0x62], Tick 1000, TimerFire 0, Listening,
        FetchSettle 2 (Responded 200 ''ok''), FetchSettle 1 Rejected, Tick 1000, TimerFire 0] (init 0))
   \<and> sequenceStops (run noConfig [SerialData [0x62], Tick 1000, TimerFire 0, Listening,
        FetchSettle 2 (Responded 200 ''ok''), FetchSettle 1 Rejected, Tick 1000, TimerFire 0] (init 0)) = [1000]
   \<and> startCalls (run noConfig [SerialData [0x62], Tick 1000, TimerFire 0, Listening,
        FetchSettle 2 (Responded 200 ''ok''), FetchSettle 1 Rejected, Tick 1000, TimerFire 0] (init 0)) = []
   \<and> timers (run noConfig [SerialData [0x62], Tick 1000, TimerFire 0, Listening,
        FetchSettle 2 (Responded 200 ''ok''), FetchSettle 1 Rejected, Tick 1000, TimerFire 0] (init 0)) = []
   \<and> map (\<lambda>(i, k, c). c) (inflight (run noConfig [SerialData [0x62], Tick 1000, TimerFire 0, Listening,
        FetchSettle 2 (Responded 200 ''ok''), FetchSettle 1 Rejected, Tick 1000, TimerFire 0] (init 0)))
       = [ByQueue ''b'' 1]"
  by (simp add: triggersB_def bytesB_def rejects_def caught_def sequenceOver_def sequenceStops_def
        life_simps httpJson_def call_simps noConfig_def)

text \<open>
  C10. When the serial port is not writable, \<^verbatim>\<open>writeToSerial\<close> leaves the statistics and
  the port alone; a pass of the loop body over a valid frame then counts the frame as
  good and changes none of \<^verbatim>\<open>serialFrames\<close>, \<^verbatim>\<open>serialBytes\<close>, \<^verbatim>\<open>lastSerialAt\<close>. In
  every state the bridge can reach \<^verbatim>\<open>serialFrames\<close> is at most \<^verbatim>\<open>tcpFramesOk\<close>, and
  there are runs where it is less.
\<close>

theorem C10_dropped_frames:
  "(\<not> serialWritable s \<longrightarrow>
      stats (writeToSerial f s) = stats s \<and> written (writeToSerial f s) = written s)
   \<and> (\<not> serialWritable s \<and> 33 \<le> length (tcpBuffer s) \<and> tcpBuffer s ! 0 = 0xA0 \<and>
       tcpBuffer s ! 32 AND 0xF0 = 0xC0 \<longrightarrow>
      tcpFramesOk (stats (snd (loopBody s))) = tcpFramesOk (stats s) + 1 \<and>
      serialFrames (stats (snd (loopBody s))) = serialFrames (stats s) \<and>
      serialBytes (stats (snd (loopBody s))) = serialBytes (stats s) \<and>
      lastSerialAt (stats (snd (loopBody s))) = lastSerialAt (stats s) \<and>
      written (snd (loopBody s)) = written s)
   \<and> serialFrames (stats (run cfg evs (init t0))) \<le> tcpFramesOk (stats (run cfg evs (init t0)))
   \<and> (\<exists>evs'. serialFrames (stats (run cfg evs' (init t0)))
              < tcpFramesOk (stats (run cfg evs' (init t0))))"
proof -
  have "serialFrames (stats (run cfg [SerialPort False [], TcpData 0 goodFrame] (init t0)))
          < tcpFramesOk (stats (run cfg [SerialPort False [], TcpData 0 goodFrame] (init t0)))"
    by (simp add: run_simps goodFrame_def)
  then have "\<exists>evs'. serialFrames (stats (run cfg evs' (init t0)))
              < tcpFramesOk (stats (run cfg evs' (init t0)))" ..
  moreover have "\<not> serialWritable s \<longrightarrow>
      stats (writeToSerial f s) = stats s \<and> written (writeToSerial f s) = written s"
    by (simp add: writeToSerial_def)
  moreover have "\<not> serialWritable s \<and> 33 \<le> length (tcpBuffer s) \<and> tcpBuffer s ! 0 = 0xA0 \<and>
       tcpBuffer s ! 32 AND 0xF0 = 0xC0 \<longrightarrow>
      tcpFramesOk (stats (snd (loopBody s))) = tcpFramesOk (stats s) + 1 \<and>
      serialFrames (stats (snd (loopBody s))) = serialFrames (stats s) \<and>
      serialBytes (stats (snd (loopBody s))) = serialBytes (stats s) \<and>
      lastSerialAt (stats (snd (loopBody s))) = lastSerialAt (stats s) \<and>
      written (snd (loopBody s)) = written s"
    by (simp add: loopBody_def writeToSerial_def Let_def)
  ultimately show ?thesis using counts_invariant [of cfg evs t0] by blast
qed

theorem C10_dropped_frames_witness:
  "\<not> serialWritable ((init 0)\<lparr>serialWritable := False, tcpBuffer := goodFrame\<rparr>)
   \<and> tcpFramesOk (stats (snd (loopBody ((init 0)\<lparr>serialWritable := False, tcpBuffer := goodFrame\<rparr>)))) = 1
   \<and> serialFrames (stats (snd (loopBody ((init 0)\<lparr>serialWritable := False, tcpBuffer := goodFrame\<rparr>)))) = 0
   \<and> written (snd (loopBody ((init 0)\<lparr>serialWritable := False, tcpBuffer := goodFrame\<rparr>))) = []
   \<and> serialFrames (stats (run noConfig [SerialPort False [], TcpData 0 goodFrame] (init 0))) = 0
   \<and> tcpFramesOk (stats (run noConfig [SerialPort False [], TcpData 0 goodFrame] (init 0))) = 1"
proof -
  let ?S = "(init 0)\<lparr>serialWritable := False, tcpBuffer := goodFrame\<rparr>"
  let ?evs = "[SerialPort False [], TcpData 0 goodFrame]"
  have h: "\<not> serialWritable ?S \<and> 33 \<le> length (tcpBuffer ?S) \<and> tcpBuffer ?S ! 0 = 0xA0 \<and>
       tcpBuffer ?S ! 32 AND 0xF0 = 0xC0"
    by (simp add: goodFrame_def)
  have z: "tcpFramesOk (stats ?S) = 0" "serialFrames (stats ?S) = 0" "written ?S = []"
    by (simp_all add: init_def)
  have r: "tcpFramesOk (stats (run noConfig ?evs (init 0))) = 1"
    by (simp add: run_simps goodFrame_def)
  from C10_dropped_frames [of ?S goodFrame noConfig ?evs 0] h
  have "tcpFramesOk (stats (snd (loopBody ?S))) = tcpFramesOk (stats ?S) + 1"
    "serialFrames (stats (snd (loopBody ?S))) = serialFrames (stats ?S)"
    "written (snd (loopBody ?S)) = written ?S"
    "serialFrames (stats (run noConfig ?evs (init 0))) \<le> tcpFramesOk (stats (run noConfig ?evs (init 0)))"
    by blast+
  moreover have "serialFrames (stats (run noConfig ?evs (init 0))) = 0"
    by (simp add: run_simps goodFrame_def)
  ultimately show ?thesis using h z r by simp
qed

end
